theory Spec2Isabelle
  imports Main "HOL-Library.Word"
begin

unbundle bit_operations_syntax

section \<open>The Futaba S.bus decoder of px4io (src/apps/px4io/sbus.c)\<close>

subsection \<open>Machine types and constants\<close>

text \<open>
  \<open>uint8_t\<close> is an 8-bit word and \<open>unsigned\<close> a 32-bit word (the target is a 32-bit
  ARM).
\<close>

type_synonym u8 = "8 word"
type_synonym u32 = "32 word"

text \<open>
  Modelled from the spec: \<open>hrt_abstime\<close> is declared in drivers/drv_hrt.h, which is
  not part of the source at hand. Timestamps come from a monotonic clock and are
  compared by a subtraction that wraps around; the source counts them in
  microseconds (3000 for 3ms, 200000 for 200ms). They are 64-bit unsigned words here.
\<close>

type_synonym hrt_abstime = "64 word"

abbreviation SBUS_FRAME_SIZE :: nat where
  "SBUS_FRAME_SIZE \<equiv> 25"

abbreviation SBUS_INPUT_CHANNELS :: nat where
  "SBUS_INPUT_CHANNELS \<equiv> 18"

subsection \<open>The decoder matrix\<close>

text \<open>
  \<open>struct sbus_bit_pick\<close>: byte offset in the data portion of the frame, right shift
  applied to the data byte, mask for the data byte, left shift applied to the result.
  The field \<open>mask\<close> is called \<open>mask'\<close> here, since \<open>mask\<close> is a constant of the
  word library.
\<close>

record sbus_bit_pick =
  byte :: u8
  rshift :: u8
  mask' :: u8
  lshift :: u8

definition pick :: "u8 \<Rightarrow> u8 \<Rightarrow> u8 \<Rightarrow> u8 \<Rightarrow> sbus_bit_pick" where
  "pick b r m l = \<lparr>byte = b, rshift = r, mask' = m, lshift = l\<rparr>"

text \<open>
  \<open>sbus_decoder[SBUS_INPUT_CHANNELS][3]\<close>. The initialiser of the source gives
  16 rows for an array of 18; the two rows it leaves out are zero-initialised by C,
  and are written out here as rows 16 and 17.
\<close>

definition sbus_decoder :: "sbus_bit_pick list list" where
  "sbus_decoder =
   [ [pick 0 0 0xff 0, pick 1 0 0x07 8, pick 0 0 0x00 0],
     [pick 1 3 0x1f 0, pick 2 0 0x3f 5, pick 0 0 0x00 0],
     [pick 2 6 0x03 0, pick 3 0 0xff 2, pick 4 0 0x01 10],
     [pick 4 1 0x7f 0, pick 5 0 0x0f 7, pick 0 0 0x00 0],
     [pick 5 4 0x0f 0, pick 6 0 0x7f 4, pick 0 0 0x00 0],
     [pick 6 7 0x01 0, pick 7 0 0xff 1, pick 8 0 0x03 9],
     [pick 8 2 0x3f 0, pick 9 0 0x1f 6, pick 0 0 0x00 0],
     [pick 9 5 0x07 0, pick 10 0 0xff 3, pick 0 0 0x00 0],
     [pick 11 0 0xff 0, pick 12 0 0x07 8, pick 0 0 0x00 0],
     [pick 12 3 0x1f 0, pick 13 0 0x3f 5, pick 0 0 0x00 0],
     [pick 13 6 0x03 0, pick 14 0 0xff 2, pick 15 0 0x01 10],
     [pick 15 1 0x7f 0, pick 16 0 0x0f 7, pick 0 0 0x00 0],
     [pick 16 4 0x0f 0, pick 17 0 0x7f 4, pick 0 0 0x00 0],
     [pick 17 7 0x01 0, pick 18 0 0xff 1, pick 19 0 0x03 9],
     [pick 19 2 0x3f 0, pick 20 0 0x1f 6, pick 0 0 0x00 0],
     [pick 20 5 0x07 0, pick 21 0 0xff 3, pick 0 0 0x00 0],
     [pick 0 0 0x00 0, pick 0 0 0x00 0, pick 0 0 0x00 0],
     [pick 0 0 0x00 0, pick 0 0 0x00 0, pick 0 0 0x00 0] ]"

subsection \<open>The state\<close>

text \<open>
  The state is made of the file-level variables of sbus.c (\<open>last_rx_time\<close>,
  \<open>last_frame_time\<close>, \<open>frame\<close>, \<open>partial_frame_count\<close>, \<open>sbus_frame_drops\<close>) and
  of the four fields of the global \<open>system_state\<close> that \<open>sbus_decode\<close> writes.
\<close>

text \<open>
  Modelled from the spec: \<open>system_state\<close> is declared in px4io.h, which is not part
  of the source at hand. The output record has integer channel values, an integer
  channel count and a timestamp: the channel values and the channel count are
  natural numbers here (a store does not truncate), the timestamp is an
  \<open>hrt_abstime\<close> and the report flag a truth value. \<open>rc_channel_data\<close> is an array;
  it is a list here, and a store beyond its end, undefined in C, leaves the list as
  it is.
\<close>

record sbus_state =
  last_rx_time :: hrt_abstime
  last_frame_time :: hrt_abstime
  frame :: "u8 list"
  partial_frame_count :: u32
  sbus_frame_drops :: u32
  rc_channels :: nat
  rc_channel_data :: "nat list"
  rc_channels_timestamp :: hrt_abstime
  fmu_report_due :: bool

subsection \<open>sbus\_decode\<close>

text \<open>
  The body of the inner loop for one entry of a row: the data byte at
  \<open>frame[1 + decode->byte]\<close>, as an \<open>unsigned\<close>, shifted right, masked and shifted
  left.
\<close>

definition sbus_piece :: "u8 list \<Rightarrow> sbus_bit_pick \<Rightarrow> u32" where
  "sbus_piece frm decode =
     push_bit (unat (lshift decode))
       (drop_bit (unat (rshift decode)) (ucast (frm ! (1 + unat (byte decode))))
          AND ucast (mask' decode))"

text \<open>
  The inner loop \<open>for (pick = 0; pick < 3; pick++)\<close> over the three entries of a row,
  with the accumulator \<open>value\<close> of the source (called \<open>val\<close>).
\<close>

fun sbus_picks :: "u8 list \<Rightarrow> sbus_bit_pick list \<Rightarrow> u32 \<Rightarrow> u32" where
  "sbus_picks frm [] val = val"
| "sbus_picks frm (decode # rest) val =
     sbus_picks frm rest
       (if mask' decode \<noteq> 0 then val OR sbus_piece frm decode else val)"

definition sbus_channel_value :: "u8 list \<Rightarrow> nat \<Rightarrow> u32" where
  "sbus_channel_value frm channel = sbus_picks frm (sbus_decoder ! channel) 0"

text \<open>
  The outer loop \<open>for (channel = 0; channel < chancount; channel++)\<close>, which stores
  \<open>(value / 2) + 998\<close> for each channel. The counter stays below 18.
\<close>

function sbus_channel_loop :: "u8 list \<Rightarrow> nat \<Rightarrow> nat \<Rightarrow> nat list \<Rightarrow> nat list" where
  "sbus_channel_loop frm chancount channel data =
     (if channel < chancount
      then sbus_channel_loop frm chancount (Suc channel)
             (data[channel := unat (sbus_channel_value frm channel div 2 + 998)])
      else data)"
  by pat_completeness auto
termination
  by (relation "measure (\<lambda>(frm, chancount, channel, data). chancount - channel)") auto

declare sbus_channel_loop.simps [simp del]

text \<open>
  \<open>PX4IO_INPUT_CHANNELS\<close> is defined in a header that is not part of the source at
  hand; it is the first parameter of the model.
\<close>

definition sbus_chancount :: "nat \<Rightarrow> nat" where
  "sbus_chancount px4io_input_channels =
     (if px4io_input_channels > SBUS_INPUT_CHANNELS
      then SBUS_INPUT_CHANNELS else px4io_input_channels)"

text \<open>
  The two switch channels: \<open>(frame[23] & (1 << n)) * 1000 + 998\<close>, computed on
  \<open>int\<close>; the values are small and not negative, so a 32-bit word holds them.
\<close>

definition sbus_switch :: "u8 list \<Rightarrow> nat \<Rightarrow> nat" where
  "sbus_switch frm n =
     unat ((ucast (frm ! 23) AND push_bit n 1) * 1000 + (998 :: u32))"

text \<open>
  \<open>sbus_decode\<close>. The failsafe branch ends with \<open>return 1\<close> in a function
  returning \<open>void\<close>: the value is dropped and the branch is a plain return.
\<close>

definition sbus_decode :: "nat \<Rightarrow> hrt_abstime \<Rightarrow> sbus_state \<Rightarrow> sbus_state" where
  "sbus_decode px4io_input_channels frame_time s =
     (if frame s ! 0 \<noteq> 0x0f \<or> frame s ! 24 \<noteq> 0x00
      then s\<lparr>sbus_frame_drops := sbus_frame_drops s + 1\<rparr>
      else if (frame s ! 23 AND push_bit 2 1) \<noteq> 0 \<and> (frame s ! 23 AND push_bit 3 1) \<noteq> 0
      then s\<lparr>rc_channels := 0\<rparr>
      else
        let chancount = sbus_chancount px4io_input_channels;
            data = sbus_channel_loop (frame s) chancount 0 (rc_channel_data s);
            data' = (if chancount > 17
                     then data[16 := sbus_switch (frame s) 0, 17 := sbus_switch (frame s) 1]
                     else data)
        in s\<lparr>last_frame_time := frame_time,
             rc_channel_data := data',
             rc_channels := chancount,
             rc_channels_timestamp := frame_time,
             fmu_report_due := True\<rparr>)"

subsection \<open>sbus\_input\<close>

text \<open>
  \<open>read(sbus_fd, &frame[off], count)\<close>. The serial device is outside the program:
  \<open>None\<close> is a failed read, which returns -1 and stores nothing, and \<open>Some bs\<close> is a
  device holding the bytes \<open>bs\<close>, of which the first \<open>count\<close> are stored from
  \<open>frame[off]\<close> on and counted in the result.
\<close>

fun store_bytes :: "u8 list \<Rightarrow> nat \<Rightarrow> u8 list \<Rightarrow> u8 list" where
  "store_bytes buf off [] = buf"
| "store_bytes buf off (b # bs) = store_bytes (buf[off := b]) (Suc off) bs"

definition read_fd :: "u8 list option \<Rightarrow> u8 list \<Rightarrow> nat \<Rightarrow> nat \<Rightarrow> int \<times> u8 list" where
  "read_fd dev buf off count =
     (case dev of
        None \<Rightarrow> (- 1, buf)
      | Some bs \<Rightarrow> (int (length (take count bs)), store_bytes buf off (take count bs)))"

text \<open>Lines 122 to 127: a gap of more than 3ms abandons a partial frame.\<close>

definition sbus_input_gap :: "hrt_abstime \<Rightarrow> sbus_state \<Rightarrow> sbus_state" where
  "sbus_input_gap now s =
     (if now - last_rx_time s > 3000
      then (if partial_frame_count s > 0
            then s\<lparr>sbus_frame_drops := sbus_frame_drops s + 1, partial_frame_count := 0\<rparr>
            else s)
      else s)"

text \<open>Line 133: the read, into the frame at the partial count.\<close>

definition sbus_input_read :: "u8 list option \<Rightarrow> sbus_state \<Rightarrow> int \<times> sbus_state" where
  "sbus_input_read dev s =
     (let (ret, buf) = read_fd dev (frame s) (unat (partial_frame_count s))
                         (unat (of_nat SBUS_FRAME_SIZE - partial_frame_count s))
      in (ret, s\<lparr>frame := buf\<rparr>))"

text \<open>Lines 139 to 144: the bytes read are added to the current frame.\<close>

definition sbus_input_add :: "hrt_abstime \<Rightarrow> int \<Rightarrow> sbus_state \<Rightarrow> sbus_state" where
  "sbus_input_add now ret s =
     s\<lparr>last_rx_time := now,
       partial_frame_count := partial_frame_count s + word_of_int ret\<rparr>"

text \<open>The label \<open>out\<close>: the value returned.\<close>

definition sbus_locked :: "hrt_abstime \<Rightarrow> sbus_state \<Rightarrow> bool" where
  "sbus_locked now s = (now - last_frame_time s < 200000)"

text \<open>
  Lines 129 to 163: the read and what follows it, up to the value returned.
\<close>

definition sbus_input_fetch ::
  "nat \<Rightarrow> hrt_abstime \<Rightarrow> u8 list option \<Rightarrow> sbus_state \<Rightarrow> bool \<times> sbus_state" where
  "sbus_input_fetch px4io_input_channels now dev s1 =
     (let (ret, s2) = sbus_input_read dev s1
      in if ret < 1 then (sbus_locked now s2, s2)
         else
           let s3 = sbus_input_add now ret s2
           in if partial_frame_count s3 < of_nat SBUS_FRAME_SIZE then (sbus_locked now s3, s3)
              else
                let s4 = (sbus_decode px4io_input_channels now s3)\<lparr>partial_frame_count := 0\<rparr>
                in (sbus_locked now s4, s4))"

text \<open>
  \<open>sbus_input\<close>, with the value of \<open>hrt_absolute_time()\<close> and the state of the device
  as arguments. It returns the lock status and the new state.
\<close>

definition sbus_input ::
  "nat \<Rightarrow> hrt_abstime \<Rightarrow> u8 list option \<Rightarrow> sbus_state \<Rightarrow> bool \<times> sbus_state" where
  "sbus_input px4io_input_channels now dev s =
     sbus_input_fetch px4io_input_channels now dev (sbus_input_gap now s)"

text \<open>
  A sequence of calls of \<open>sbus_input\<close>, each with its clock value and its device
  state; the lock values returned, in order, and the last state.
\<close>

fun sbus_inputs ::
  "nat \<Rightarrow> (hrt_abstime \<times> u8 list option) list \<Rightarrow> sbus_state \<Rightarrow> bool list \<times> sbus_state" where
  "sbus_inputs px4io_input_channels [] s = ([], s)"
| "sbus_inputs px4io_input_channels ((now, dev) # calls) s =
     (let (locked, s') = sbus_input px4io_input_channels now dev s;
          (rest, s'') = sbus_inputs px4io_input_channels calls s'
      in (locked # rest, s''))"

text \<open>
  \<open>sbus_init\<close> when the device opens: the decoder is initialised. The serial port
  itself is outside the model.
\<close>

definition sbus_init :: "hrt_abstime \<Rightarrow> sbus_state \<Rightarrow> sbus_state" where
  "sbus_init now s = s\<lparr>partial_frame_count := 0, last_rx_time := now\<rparr>"

subsection \<open>Derived notions\<close>

text \<open>
  The values that a successful \<open>sbus_decode\<close> leaves in the first \<open>chancount\<close>
  entries of \<open>rc_channel_data\<close>, as a function of the frame: the matrix loop runs
  over every channel below \<open>chancount\<close>, and the stores to the entries 16 and 17
  come after it.
\<close>

definition sbus_channel_output :: "nat \<Rightarrow> u8 list \<Rightarrow> nat \<Rightarrow> nat" where
  "sbus_channel_output px4io_input_channels frm i =
     (if sbus_chancount px4io_input_channels > 17 \<and> 16 \<le> i
      then sbus_switch frm (i - 16)
      else unat (sbus_channel_value frm i div 2 + 998))"

definition sbus_decoded_channels :: "nat \<Rightarrow> u8 list \<Rightarrow> nat list" where
  "sbus_decoded_channels px4io_input_channels frm =
     map (sbus_channel_output px4io_input_channels frm)
       [0 ..< sbus_chancount px4io_input_channels]"

text \<open>
  The frames that \<open>sbus_decode\<close> accepts: both markers, and not both failsafe bits.
\<close>

definition sbus_frame_good :: "u8 list \<Rightarrow> bool" where
  "sbus_frame_good frm =
     (frm ! 0 = 0x0f \<and> frm ! 24 = 0x00 \<and> \<not> (bit (frm ! 23) 2 \<and> bit (frm ! 23) 3))"

text \<open>
  A call of \<open>sbus_input\<close> that decodes a good frame: the read completes the 25 bytes
  and \<open>sbus_decode\<close> accepts them. \<open>sbus_last_good\<close> is the clock value of the most
  recent such call in a sequence of calls, if there is one.
\<close>

definition sbus_input_good :: "hrt_abstime \<Rightarrow> u8 list option \<Rightarrow> sbus_state \<Rightarrow> bool" where
  "sbus_input_good now dev s =
     (let s1 = sbus_input_gap now s;
          (ret, s2) = sbus_input_read dev s1;
          s3 = sbus_input_add now ret s2
      in 1 \<le> ret \<and> \<not> partial_frame_count s3 < of_nat SBUS_FRAME_SIZE
         \<and> sbus_frame_good (frame s3))"

fun sbus_last_good ::
  "nat \<Rightarrow> (hrt_abstime \<times> u8 list option) list \<Rightarrow> sbus_state \<Rightarrow> hrt_abstime option" where
  "sbus_last_good px4io_input_channels [] s = None"
| "sbus_last_good px4io_input_channels ((now, dev) # calls) s =
     (case sbus_last_good px4io_input_channels calls
             (snd (sbus_input px4io_input_channels now dev s)) of
        Some t \<Rightarrow> Some t
      | None \<Rightarrow> if sbus_input_good now dev s then Some now else None)"

text \<open>
  Two states that differ at most in the bytes of the frame buffer at and beyond the
  partial count, which are stale: they are overwritten before they are decoded.
\<close>

definition sbus_same :: "sbus_state \<Rightarrow> sbus_state \<Rightarrow> bool" where
  "sbus_same s t =
     (t\<lparr>frame := frame s\<rparr> = s
      \<and> length (frame s) = SBUS_FRAME_SIZE \<and> length (frame t) = SBUS_FRAME_SIZE
      \<and> unat (partial_frame_count s) \<le> SBUS_FRAME_SIZE
      \<and> take (unat (partial_frame_count s)) (frame s) =
          take (unat (partial_frame_count s)) (frame t))"

text \<open>
  The bits of the accumulator that one entry of the matrix can set: its mask, shifted
  left as the piece is. \<open>sbus_row_mask\<close> collects them over a row as \<open>sbus_picks\<close>
  collects the pieces.
\<close>

definition sbus_pick_mask :: "sbus_bit_pick \<Rightarrow> u32" where
  "sbus_pick_mask decode = push_bit (unat (lshift decode)) (ucast (mask' decode))"

fun sbus_row_mask :: "sbus_bit_pick list \<Rightarrow> u32 \<Rightarrow> u32" where
  "sbus_row_mask [] acc = acc"
| "sbus_row_mask (decode # rest) acc =
     sbus_row_mask rest (if mask' decode \<noteq> 0 then acc OR sbus_pick_mask decode else acc)"

text \<open>
  The variables as C initialises them (static storage is zero), with an array of
  \<open>n\<close> channel values, and the same state holding a given frame.
\<close>

definition sbus_zero_state :: "nat \<Rightarrow> sbus_state" where
  "sbus_zero_state n =
     \<lparr>last_rx_time = 0, last_frame_time = 0, frame = replicate SBUS_FRAME_SIZE 0,
      partial_frame_count = 0, sbus_frame_drops = 0, rc_channels = 0,
      rc_channel_data = replicate n 0, rc_channels_timestamp = 0,
      fmu_report_due = False\<rparr>"

definition sbus_frame_state :: "nat \<Rightarrow> u8 list \<Rightarrow> sbus_state" where
  "sbus_frame_state n frm = (sbus_zero_state n)\<lparr>frame := frm\<rparr>"

text \<open>A frame with the two markers, a payload of zeros and the flag byte \<open>flags\<close>.\<close>

definition sbus_flag_frame :: "u8 \<Rightarrow> u8 list" where
  "sbus_flag_frame flags = 0x0f # replicate 22 0 @ [flags, 0x00]"

subsection \<open>A synthetic encoder\<close>

text \<open>
  Modelled from the spec: the source has no encoder. S.bus packs 16 channels of 11
  bits each into a contiguous 176-bit field with no byte alignment, the first channel
  in the lowest bits, after the start marker 0x0F and before the flag byte (here 0)
  and the end marker 0x00. \<open>sbus_pack\<close> is that field as a number, and the payload
  byte \<open>j\<close> is its bits \<open>8 * j\<close> to \<open>8 * j + 7\<close>.
\<close>

fun sbus_pack :: "nat list \<Rightarrow> nat" where
  "sbus_pack [] = 0"
| "sbus_pack (v # vs) = v + 2048 * sbus_pack vs"

definition sbus_payload_byte :: "nat \<Rightarrow> nat \<Rightarrow> u8" where
  "sbus_payload_byte field j = of_nat (take_bit 8 (drop_bit (8 * j) field))"

definition sbus_encode :: "nat list \<Rightarrow> u8 list" where
  "sbus_encode vals =
     0x0f # map (sbus_payload_byte (sbus_pack vals)) [0 ..< 22] @ [0x00, 0x00]"

section \<open>Auxiliary facts\<close>

subsection \<open>The loops of the decoder\<close>

lemma length_sbus_channel_loop:
  "length (sbus_channel_loop frm chancount channel data) = length data"
  by (induction frm chancount channel data rule: sbus_channel_loop.induct)
     (simp add: sbus_channel_loop.simps)

lemma nth_sbus_channel_loop:
  "i < length data \<Longrightarrow>
   sbus_channel_loop frm chancount channel data ! i =
     (if channel \<le> i \<and> i < chancount
      then unat (sbus_channel_value frm i div 2 + 998) else data ! i)"
proof (induction frm chancount channel data rule: sbus_channel_loop.induct)
  case (1 frm chancount channel data)
  show ?case
  proof (cases "channel < chancount")
    case True
    show ?thesis
    proof (cases "i = channel")
      case True
      with 1 \<open>channel < chancount\<close> show ?thesis
        by (subst sbus_channel_loop.simps) simp
    next
      case False
      with 1 \<open>channel < chancount\<close> show ?thesis
        by (subst sbus_channel_loop.simps) auto
    qed
  next
    case False
    then show ?thesis
      by (subst sbus_channel_loop.simps) simp
  qed
qed

lemma flag_test: "(x AND push_bit n 1 \<noteq> 0) = bit (x :: u8) n"
  by (simp add: bit_iff_and_push_bit_not_eq_0)

lemma flag_test_2: "(x AND 4 = 0) = (\<not> bit (x :: u8) 2)"
  using flag_test [of x 2] by auto

lemma flag_test_3: "(x AND 8 = 0) = (\<not> bit (x :: u8) 3)"
  using flag_test [of x 3] by auto

lemma sbus_chancount_le: "sbus_chancount n \<le> 18"
  by (simp add: sbus_chancount_def)

lemma sbus_decode_data:
  assumes "sbus_chancount n \<le> length data"
  shows "(let d = sbus_channel_loop frm (sbus_chancount n) 0 data
          in if sbus_chancount n > 17
             then d[16 := sbus_switch frm 0, 17 := sbus_switch frm 1] else d) =
         sbus_decoded_channels n frm @ drop (sbus_chancount n) data"
proof (rule nth_equalityI)
  show "length (let d = sbus_channel_loop frm (sbus_chancount n) 0 data
          in if sbus_chancount n > 17
             then d[16 := sbus_switch frm 0, 17 := sbus_switch frm 1] else d) =
        length (sbus_decoded_channels n frm @ drop (sbus_chancount n) data)"
    using assms by (simp add: Let_def length_sbus_channel_loop sbus_decoded_channels_def)
next
  fix i
  assume "i < length (let d = sbus_channel_loop frm (sbus_chancount n) 0 data
          in if sbus_chancount n > 17
             then d[16 := sbus_switch frm 0, 17 := sbus_switch frm 1] else d)"
  then have i: "i < length data"
    by (simp add: Let_def length_sbus_channel_loop split: if_splits)
  have c: "sbus_chancount n \<le> 18" by (rule sbus_chancount_le)
  show "(let d = sbus_channel_loop frm (sbus_chancount n) 0 data
          in if sbus_chancount n > 17
             then d[16 := sbus_switch frm 0, 17 := sbus_switch frm 1] else d) ! i =
        (sbus_decoded_channels n frm @ drop (sbus_chancount n) data) ! i"
    using i assms c
    by (auto simp: Let_def length_sbus_channel_loop nth_sbus_channel_loop nth_list_update
        nth_append sbus_decoded_channels_def sbus_channel_output_def)
qed

lemma sbus_decode_good:
  assumes "frame s ! 0 = 0x0f" "frame s ! 24 = 0x00"
    and "sbus_chancount n \<le> length (rc_channel_data s)"
  shows "sbus_decode n t s =
     (if bit (frame s ! 23) 2 \<and> bit (frame s ! 23) 3 then s\<lparr>rc_channels := 0\<rparr>
      else s\<lparr>last_frame_time := t,
             rc_channel_data := sbus_decoded_channels n (frame s) @
                                  drop (sbus_chancount n) (rc_channel_data s),
             rc_channels := sbus_chancount n,
             rc_channels_timestamp := t,
             fmu_report_due := True\<rparr>)"
  using assms sbus_decode_data [OF assms(3), of "frame s"]
  by (simp add: sbus_decode_def flag_test_2 flag_test_3 Let_def)

lemma sbus_piece_in_mask: "sbus_piece frm d OR sbus_pick_mask d = sbus_pick_mask d"
  by (rule bit_word_eqI) (auto simp: sbus_piece_def sbus_pick_mask_def bit_simps)

lemma sbus_picks_in_mask:
  "val OR acc = acc \<Longrightarrow>
   sbus_picks frm row val OR sbus_row_mask row acc = sbus_row_mask row acc"
proof (induction row arbitrary: val acc)
  case Nil
  then show ?case by simp
next
  case (Cons d row)
  have "(val OR sbus_piece frm d) OR (acc OR sbus_pick_mask d) =
        (val OR acc) OR (sbus_piece frm d OR sbus_pick_mask d)"
    by (simp add: ac_simps)
  then have "(val OR sbus_piece frm d) OR (acc OR sbus_pick_mask d) = acc OR sbus_pick_mask d"
    using Cons.prems by (simp add: sbus_piece_in_mask)
  with Cons show ?case by simp
qed

lemma below_16_cases:
  assumes "channel < (16::nat)"
  obtains "channel = 0" | "channel = 1" | "channel = 2" | "channel = 3"
    | "channel = 4" | "channel = 5" | "channel = 6" | "channel = 7"
    | "channel = 8" | "channel = 9" | "channel = 10" | "channel = 11"
    | "channel = 12" | "channel = 13" | "channel = 14" | "channel = 15"
  using assms by atomize_elim arith

lemma sbus_row_mask_matrix:
  assumes "channel < 16"
  shows "sbus_row_mask (sbus_decoder ! channel) 0 = 0x7ff"
  using assms
  by (rule below_16_cases) (simp_all add: sbus_decoder_def pick_def sbus_pick_mask_def)

lemma sbus_row_mask_zero_rows:
  "sbus_row_mask (sbus_decoder ! 16) 0 = 0" "sbus_row_mask (sbus_decoder ! 17) 0 = 0"
  by (simp_all add: sbus_decoder_def pick_def sbus_pick_mask_def)

lemma sbus_channel_value_le:
  assumes "channel < 18"
  shows "sbus_channel_value frm channel \<le> 0x7ff"
proof -
  have "channel < 16 \<or> channel = 16 \<or> channel = 17"
    using assms by linarith
  then have "sbus_row_mask (sbus_decoder ! channel) 0 \<le> 0x7ff"
    using sbus_row_mask_matrix [of channel] sbus_row_mask_zero_rows by auto
  moreover have "sbus_channel_value frm channel \<le>
      sbus_channel_value frm channel OR sbus_row_mask (sbus_decoder ! channel) 0"
    by (rule le_word_or2)
  moreover have "sbus_channel_value frm channel OR sbus_row_mask (sbus_decoder ! channel) 0 =
      sbus_row_mask (sbus_decoder ! channel) 0"
    unfolding sbus_channel_value_def by (rule sbus_picks_in_mask) simp
  ultimately show ?thesis by simp
qed

lemma unat_normalise:
  assumes "v \<le> (0x7ff :: u32)"
  shows "unat (v div 2 + 998) = unat v div 2 + 998"
proof -
  have "unat v \<le> 2047" using assms by (simp add: word_le_nat_alt)
  then show ?thesis by (simp add: unat_word_ariths unat_div)
qed

subsection \<open>The values stored by a successful decode\<close>

lemma and_exp_word: "(w :: u32) AND 2 ^ n = (if bit w n then 2 ^ n else 0)"
  by (rule bit_eqI) (auto simp: bit_simps)

lemma sbus_switch_0: "sbus_switch frm 0 = (if bit (frm ! 23) 0 then 1998 else 998)"
  using and_exp_word [of "ucast (frm ! 23)" 0]
  by (simp add: sbus_switch_def bit_simps)

lemma sbus_switch_1: "sbus_switch frm 1 = (if bit (frm ! 23) 1 then 2998 else 998)"
  using and_exp_word [of "ucast (frm ! 23)" 1]
  by (simp add: sbus_switch_def bit_simps)

lemma sbus_switch_Suc_0:
  "sbus_switch frm (Suc 0) = (if bit (frm ! 23) 1 then 2998 else 998)"
  using sbus_switch_1 [of frm] by simp

lemma nth_flag_frame:
  "sbus_flag_frame flags ! 0 = 0x0f" "sbus_flag_frame flags ! 23 = flags"
  "sbus_flag_frame flags ! 24 = 0" "length (sbus_flag_frame flags) = 25"
  "i < 22 \<Longrightarrow> sbus_flag_frame flags ! Suc i = 0"
  by (simp_all add: sbus_flag_frame_def nth_append)

lemma sbus_channel_output_range:
  assumes "i < sbus_chancount n" "i \<noteq> 17"
  shows "998 \<le> sbus_channel_output n frm i \<and> sbus_channel_output n frm i \<le> 2021"
proof (cases "sbus_chancount n > 17 \<and> 16 \<le> i")
  case True
  with assms sbus_chancount_le [of n] have "i = 16" by linarith
  with True show ?thesis
    by (simp add: sbus_channel_output_def sbus_switch_0)
next
  case False
  have "i < 18" using assms(1) sbus_chancount_le [of n] by linarith
  then have le: "sbus_channel_value frm i \<le> 0x7ff"
    by (rule sbus_channel_value_le)
  then have "unat (sbus_channel_value frm i) \<le> 2047"
    by (simp add: word_le_nat_alt)
  with False unat_normalise [OF le] show ?thesis
    by (auto simp: sbus_channel_output_def)
qed

lemma length_sbus_decoded:
  "length (sbus_decoded_channels n frm) = sbus_chancount n"
  by (simp add: sbus_decoded_channels_def)

lemma nth_sbus_decoded:
  assumes "i < sbus_chancount n"
  shows "sbus_decoded_channels n frm ! i = sbus_channel_output n frm i"
  using assms by (simp add: sbus_decoded_channels_def)

subsection \<open>The decoder matrix and the bit layout\<close>

lemma take_bit_split:
  "take_bit (a + b) (x::nat) = take_bit a x OR push_bit a (take_bit b (drop_bit a x))"
  by (rule bit_eqI) (auto simp: bit_simps)

lemma sbus_piece_field:
  assumes "frm ! (1 + b) = sbus_payload_byte P b"
    and "r + w \<le> 8" and "b < 256" and "l < 256"
  shows "sbus_piece frm (pick (of_nat b) (of_nat r) (mask w) (of_nat l)) =
         of_nat (push_bit l (take_bit w (drop_bit (8 * b + r) P)))"
proof -
  have u: "unat (of_nat b :: u8) = b" "unat (of_nat r :: u8) = r" "unat (of_nat l :: u8) = l"
    using assms(2,3,4) by (simp_all add: unat_of_nat)
  show ?thesis
    unfolding sbus_piece_def pick_def
    using assms(1,2)
    apply (simp add: u sbus_payload_byte_def)
    apply (rule bit_word_eqI)
    apply (auto simp: bit_simps ac_simps)
    done
qed

lemma pick_sel:
  "byte (pick b r m l) = b" "rshift (pick b r m l) = r"
  "mask' (pick b r m l) = m" "lshift (pick b r m l) = l"
  by (simp_all add: pick_def)

lemma sbus_piece_empty:
  "sbus_piece frm (pick b r 0 l) = 0"
  by (simp add: sbus_piece_def pick_def)

lemma sbus_picks_field:
  assumes ba: "frm ! (1 + ba) = sbus_payload_byte P ba"
    and bb: "frm ! (1 + bb) = sbus_payload_byte P bb"
    and bc: "wc \<noteq> 0 \<Longrightarrow> frm ! (1 + bc) = sbus_payload_byte P bc"
    and oa: "8 * ba + ra = 11 * k"
    and ob: "8 * bb = 11 * k + wa"
    and oc: "wc \<noteq> 0 \<Longrightarrow> 8 * bc = 11 * k + wa + wb \<and> lc = wa + wb"
    and w: "wa + wb + wc = 11" "ra + wa \<le> 8" "wb \<le> 8" "wc \<le> 8"
    and small: "ba < 256" "bb < 256" "bc < 256" "lc < 256"
  shows "sbus_picks frm
           [pick (of_nat ba) (of_nat ra) (mask wa) 0,
            pick (of_nat bb) 0 (mask wb) (of_nat wa),
            pick (of_nat bc) 0 (mask wc) (of_nat lc)] 0 =
         of_nat (take_bit 11 (drop_bit (11 * k) P))"
proof -
  let ?X = "drop_bit (11 * k) P"
  have pa: "sbus_piece frm (pick (of_nat ba) (of_nat ra) (mask wa) 0) =
            of_nat (take_bit wa ?X)"
    using sbus_piece_field [OF ba, of ra wa 0] w small oa by simp
  have pb: "sbus_piece frm (pick (of_nat bb) 0 (mask wb) (of_nat wa)) =
            of_nat (push_bit wa (take_bit wb (drop_bit wa ?X)))"
    using sbus_piece_field [OF bb, of 0 wb wa] w small ob
    by (simp add: drop_bit_drop_bit add.commute)
  have pc: "(if (mask wc :: u8) \<noteq> 0
             then sbus_piece frm (pick (of_nat bc) 0 (mask wc) (of_nat lc)) else 0) =
            of_nat (push_bit (wa + wb) (take_bit wc (drop_bit (wa + wb) ?X)))"
  proof (cases "wc = 0")
    case True
    then show ?thesis by simp
  next
    case False
    then have "(mask wc :: u8) \<noteq> 0" by simp
    moreover have "sbus_piece frm (pick (of_nat bc) 0 (mask wc) (of_nat lc)) =
            of_nat (push_bit (wa + wb) (take_bit wc (drop_bit (wa + wb) ?X)))"
      using sbus_piece_field [OF bc [OF False], of 0 wc lc] w small oc [OF False]
      by (simp add: drop_bit_drop_bit ac_simps)
    ultimately show ?thesis by simp
  qed
  have split: "take_bit 11 ?X =
      take_bit wa ?X OR push_bit wa (take_bit wb (drop_bit wa ?X))
        OR push_bit (wa + wb) (take_bit wc (drop_bit (wa + wb) ?X))"
  proof -
    have "take_bit 11 ?X = take_bit ((wa + wb) + wc) ?X"
      using w by simp
    also have "\<dots> = take_bit (wa + wb) ?X
        OR push_bit (wa + wb) (take_bit wc (drop_bit (wa + wb) ?X))"
      by (rule take_bit_split)
    also have "take_bit (wa + wb) ?X =
        take_bit wa ?X OR push_bit wa (take_bit wb (drop_bit wa ?X))"
      by (rule take_bit_split)
    finally show ?thesis by (simp add: ac_simps)
  qed
  have ea: "(if (mask wa :: u8) \<noteq> 0
             then sbus_piece frm (pick (of_nat ba) (of_nat ra) (mask wa) 0) else 0) =
            sbus_piece frm (pick (of_nat ba) (of_nat ra) (mask wa) 0)"
    by (cases "wa = 0") (simp_all add: sbus_piece_empty)
  have eb: "(if (mask wb :: u8) \<noteq> 0
             then sbus_piece frm (pick (of_nat bb) 0 (mask wb) (of_nat wa)) else 0) =
            sbus_piece frm (pick (of_nat bb) 0 (mask wb) (of_nat wa))"
    by (cases "wb = 0") (simp_all add: sbus_piece_empty)
  have "sbus_picks frm
           [pick (of_nat ba) (of_nat ra) (mask wa) 0,
            pick (of_nat bb) 0 (mask wb) (of_nat wa),
            pick (of_nat bc) 0 (mask wc) (of_nat lc)] 0 =
        (if (mask wa :: u8) \<noteq> 0
         then sbus_piece frm (pick (of_nat ba) (of_nat ra) (mask wa) 0) else 0)
        OR (if (mask wb :: u8) \<noteq> 0
            then sbus_piece frm (pick (of_nat bb) 0 (mask wb) (of_nat wa)) else 0)
        OR (if (mask wc :: u8) \<noteq> 0
            then sbus_piece frm (pick (of_nat bc) 0 (mask wc) (of_nat lc)) else 0)"
    by (simp add: pick_sel ac_simps)
  then show ?thesis
    unfolding ea eb pa pb pc split by (simp add: of_nat_or_eq ac_simps)
qed

lemma sbus_channel_value_row:
  assumes row: "sbus_decoder ! k =
           [pick (of_nat ba) (of_nat ra) (mask wa) 0,
            pick (of_nat bb) 0 (mask wb) (of_nat wa),
            pick (of_nat bc) 0 (mask wc) (of_nat lc)]"
    and pay: "\<And>b. b < 22 \<Longrightarrow> frm ! (1 + b) = sbus_payload_byte P b"
    and bytes: "ba < 22" "bb < 22" "bc < 22"
    and offs: "8 * ba + ra = 11 * k" "8 * bb = 11 * k + wa"
      "wc \<noteq> 0 \<Longrightarrow> 8 * bc = 11 * k + wa + wb \<and> lc = wa + wb"
    and widths: "wa + wb + wc = 11" "ra + wa \<le> 8" "wb \<le> 8" "wc \<le> 8"
    and "lc < 256"
  shows "sbus_channel_value frm k = of_nat (take_bit 11 (drop_bit (11 * k) P))"
  unfolding sbus_channel_value_def row
proof (rule sbus_picks_field)
  show "frm ! (1 + ba) = sbus_payload_byte P ba" using bytes by (intro pay)
  show "frm ! (1 + bb) = sbus_payload_byte P bb" using bytes by (intro pay)
  show "frm ! (1 + bc) = sbus_payload_byte P bc" using bytes by (intro pay)
  show "8 * ba + ra = 11 * k" by (rule offs)
  show "8 * bb = 11 * k + wa" by (rule offs)
  show "wc \<noteq> 0 \<Longrightarrow> 8 * bc = 11 * k + wa + wb \<and> lc = wa + wb" by (rule offs)
  show "wa + wb + wc = 11" "ra + wa \<le> 8" "wb \<le> 8" "wc \<le> 8" by (rule widths)+
  show "ba < 256" "bb < 256" "bc < 256" using bytes by simp_all
  show "lc < 256" by fact
qed

lemma nth_sbus_encode:
  "b < 22 \<Longrightarrow> sbus_encode vals ! (1 + b) = sbus_payload_byte (sbus_pack vals) b"
  by (simp add: sbus_encode_def nth_append)

lemma sbus_channel_value_encode:
  assumes "k < 16"
  shows "sbus_channel_value (sbus_encode vals) k =
         of_nat (take_bit 11 (drop_bit (11 * k) (sbus_pack vals)))"
  using assms
proof (rule below_16_cases)
  assume k: "k = 0"
  show ?thesis
    unfolding k
    by (rule sbus_channel_value_row [where ba = 0 and ra = 0 and wa = 8
          and bb = 1 and wb = 3 and bc = 0 and wc = 0 and lc = 0,
          OF _ nth_sbus_encode])
       (simp_all add: sbus_decoder_def mask_eq_exp_minus_1)
next
  assume k: "k = 1"
  show ?thesis
    unfolding k
    by (rule sbus_channel_value_row [where ba = 1 and ra = 3 and wa = 5
          and bb = 2 and wb = 6 and bc = 0 and wc = 0 and lc = 0,
          OF _ nth_sbus_encode])
       (simp_all add: sbus_decoder_def mask_eq_exp_minus_1)
next
  assume k: "k = 2"
  show ?thesis
    unfolding k
    by (rule sbus_channel_value_row [where ba = 2 and ra = 6 and wa = 2
          and bb = 3 and wb = 8 and bc = 4 and wc = 1 and lc = 10,
          OF _ nth_sbus_encode])
       (simp_all add: sbus_decoder_def mask_eq_exp_minus_1)
next
  assume k: "k = 3"
  show ?thesis
    unfolding k
    by (rule sbus_channel_value_row [where ba = 4 and ra = 1 and wa = 7
          and bb = 5 and wb = 4 and bc = 0 and wc = 0 and lc = 0,
          OF _ nth_sbus_encode])
       (simp_all add: sbus_decoder_def mask_eq_exp_minus_1)
next
  assume k: "k = 4"
  show ?thesis
    unfolding k
    by (rule sbus_channel_value_row [where ba = 5 and ra = 4 and wa = 4
          and bb = 6 and wb = 7 and bc = 0 and wc = 0 and lc = 0,
          OF _ nth_sbus_encode])
       (simp_all add: sbus_decoder_def mask_eq_exp_minus_1)
next
  assume k: "k = 5"
  show ?thesis
    unfolding k
    by (rule sbus_channel_value_row [where ba = 6 and ra = 7 and wa = 1
          and bb = 7 and wb = 8 and bc = 8 and wc = 2 and lc = 9,
          OF _ nth_sbus_encode])
       (simp_all add: sbus_decoder_def mask_eq_exp_minus_1)
next
  assume k: "k = 6"
  show ?thesis
    unfolding k
    by (rule sbus_channel_value_row [where ba = 8 and ra = 2 and wa = 6
          and bb = 9 and wb = 5 and bc = 0 and wc = 0 and lc = 0,
          OF _ nth_sbus_encode])
       (simp_all add: sbus_decoder_def mask_eq_exp_minus_1)
next
  assume k: "k = 7"
  show ?thesis
    unfolding k
    by (rule sbus_channel_value_row [where ba = 9 and ra = 5 and wa = 3
          and bb = 10 and wb = 8 and bc = 0 and wc = 0 and lc = 0,
          OF _ nth_sbus_encode])
       (simp_all add: sbus_decoder_def mask_eq_exp_minus_1)
next
  assume k: "k = 8"
  show ?thesis
    unfolding k
    by (rule sbus_channel_value_row [where ba = 11 and ra = 0 and wa = 8
          and bb = 12 and wb = 3 and bc = 0 and wc = 0 and lc = 0,
          OF _ nth_sbus_encode])
       (simp_all add: sbus_decoder_def mask_eq_exp_minus_1)
next
  assume k: "k = 9"
  show ?thesis
    unfolding k
    by (rule sbus_channel_value_row [where ba = 12 and ra = 3 and wa = 5
          and bb = 13 and wb = 6 and bc = 0 and wc = 0 and lc = 0,
          OF _ nth_sbus_encode])
       (simp_all add: sbus_decoder_def mask_eq_exp_minus_1)
next
  assume k: "k = 10"
  show ?thesis
    unfolding k
    by (rule sbus_channel_value_row [where ba = 13 and ra = 6 and wa = 2
          and bb = 14 and wb = 8 and bc = 15 and wc = 1 and lc = 10,
          OF _ nth_sbus_encode])
       (simp_all add: sbus_decoder_def mask_eq_exp_minus_1)
next
  assume k: "k = 11"
  show ?thesis
    unfolding k
    by (rule sbus_channel_value_row [where ba = 15 and ra = 1 and wa = 7
          and bb = 16 and wb = 4 and bc = 0 and wc = 0 and lc = 0,
          OF _ nth_sbus_encode])
       (simp_all add: sbus_decoder_def mask_eq_exp_minus_1)
next
  assume k: "k = 12"
  show ?thesis
    unfolding k
    by (rule sbus_channel_value_row [where ba = 16 and ra = 4 and wa = 4
          and bb = 17 and wb = 7 and bc = 0 and wc = 0 and lc = 0,
          OF _ nth_sbus_encode])
       (simp_all add: sbus_decoder_def mask_eq_exp_minus_1)
next
  assume k: "k = 13"
  show ?thesis
    unfolding k
    by (rule sbus_channel_value_row [where ba = 17 and ra = 7 and wa = 1
          and bb = 18 and wb = 8 and bc = 19 and wc = 2 and lc = 9,
          OF _ nth_sbus_encode])
       (simp_all add: sbus_decoder_def mask_eq_exp_minus_1)
next
  assume k: "k = 14"
  show ?thesis
    unfolding k
    by (rule sbus_channel_value_row [where ba = 19 and ra = 2 and wa = 6
          and bb = 20 and wb = 5 and bc = 0 and wc = 0 and lc = 0,
          OF _ nth_sbus_encode])
       (simp_all add: sbus_decoder_def mask_eq_exp_minus_1)
next
  assume k: "k = 15"
  show ?thesis
    unfolding k
    by (rule sbus_channel_value_row [where ba = 20 and ra = 5 and wa = 3
          and bb = 21 and wb = 8 and bc = 0 and wc = 0 and lc = 0,
          OF _ nth_sbus_encode])
       (simp_all add: sbus_decoder_def mask_eq_exp_minus_1)
qed

lemma sbus_pack_field:
  assumes "k < length vals" and "\<forall>v \<in> set vals. v < 2048"
  shows "take_bit 11 (drop_bit (11 * k) (sbus_pack vals)) = vals ! k"
  using assms
proof (induction vals arbitrary: k)
  case Nil
  then show ?case by simp
next
  case (Cons v vs)
  show ?case
  proof (cases k)
    case 0
    with Cons.prems show ?thesis
      by (simp add: take_bit_eq_mod)
  next
    case (Suc j)
    have "drop_bit (11 * Suc j) (v + 2048 * sbus_pack vs) =
          drop_bit (11 * j) (drop_bit 11 (v + 2048 * sbus_pack vs))"
      by (simp add: drop_bit_drop_bit add.commute)
    also have "drop_bit 11 (v + 2048 * sbus_pack vs) = sbus_pack vs"
      using Cons.prems by (simp add: drop_bit_eq_div)
    finally show ?thesis
      using Cons.IH [of j] Cons.prems Suc by simp
  qed
qed

lemma sbus_encode_markers:
  "length (sbus_encode vals) = 25" "sbus_encode vals ! 0 = 0x0f"
  "sbus_encode vals ! 23 = 0" "sbus_encode vals ! 24 = 0"
  by (simp_all add: sbus_encode_def nth_append)

lemma sbus_pick_masks_disjoint:
  assumes "channel < 16"
  shows "sbus_pick_mask (sbus_decoder ! channel ! 0) AND
           sbus_pick_mask (sbus_decoder ! channel ! 1) = 0
       \<and> sbus_pick_mask (sbus_decoder ! channel ! 0) AND
           sbus_pick_mask (sbus_decoder ! channel ! 2) = 0
       \<and> sbus_pick_mask (sbus_decoder ! channel ! 1) AND
           sbus_pick_mask (sbus_decoder ! channel ! 2) = 0
       \<and> sbus_pick_mask (sbus_decoder ! channel ! 0) OR
           sbus_pick_mask (sbus_decoder ! channel ! 1) OR
           sbus_pick_mask (sbus_decoder ! channel ! 2) = 0x7ff
       \<and> length (sbus_decoder ! channel) = 3"
  using assms
  by (rule below_16_cases) (simp_all add: sbus_decoder_def pick_def sbus_pick_mask_def)

subsection \<open>The byte intake\<close>

lemma length_store_bytes: "length (store_bytes buf off bs) = length buf"
  by (induction bs arbitrary: buf off) simp_all

lemma store_bytes_eq:
  "off + length bs \<le> length buf \<Longrightarrow>
   store_bytes buf off bs = take off buf @ bs @ drop (off + length bs) buf"
proof (induction bs arbitrary: buf off)
  case Nil
  then show ?case by simp
next
  case (Cons b bs)
  then have "off < length buf" by simp
  then have "buf[off := b] = take off buf @ b # drop (Suc off) buf"
    by (rule upd_conv_take_nth_drop)
  moreover have "store_bytes (buf[off := b]) (Suc off) bs =
      take (Suc off) (buf[off := b]) @ bs @ drop (Suc off + length bs) (buf[off := b])"
    using Cons.prems by (intro Cons.IH) simp
  ultimately show ?case
    using \<open>off < length buf\<close> by (simp add: take_Suc_conv_app_nth add.commute)
qed

lemma sbus_decode_keeps:
  "frame (sbus_decode n t s) = frame s"
  "partial_frame_count (sbus_decode n t s) = partial_frame_count s"
  "last_rx_time (sbus_decode n t s) = last_rx_time s"
  by (simp_all add: sbus_decode_def Let_def)

lemma sbus_decode_last_frame_time:
  "last_frame_time (sbus_decode n t s) =
     (if sbus_frame_good (frame s) then t else last_frame_time s)"
  by (auto simp: sbus_decode_def sbus_frame_good_def Let_def flag_test_2 flag_test_3)

lemma unat_frame_room:
  assumes "unat (p :: u32) \<le> 25"
  shows "unat (25 - p) = 25 - unat p"
proof -
  have "p \<le> 25" using assms by (simp add: word_le_nat_alt)
  then show ?thesis by (simp add: unat_sub)
qed

lemma unat_count_add:
  assumes "unat (p :: u32) + m \<le> 25"
  shows "unat (p + word_of_int (int m)) = unat p + m"
  using assms by (simp add: unat_word_ariths unat_of_nat)

lemma count_less_iff: "((p :: u32) < 25) = (unat p < 25)"
  by (simp add: word_less_nat_alt)

lemma sbus_input_gap_count:
  "unat (partial_frame_count s) \<le> 25 \<Longrightarrow> unat (partial_frame_count (sbus_input_gap now s)) \<le> 25"
  "frame (sbus_input_gap now s) = frame s"
  "last_frame_time (sbus_input_gap now s) = last_frame_time s"
  by (simp_all add: sbus_input_gap_def)

lemma sbus_input_read_facts:
  assumes "unat (partial_frame_count s1) \<le> 25" and "length (frame s1) = 25"
    and "(ret, s2) = sbus_input_read dev s1"
  shows "nat ret \<le> 25 - unat (partial_frame_count s1)"
    and "length (frame s2) = 25"
    and "partial_frame_count s2 = partial_frame_count s1"
    and "last_frame_time s2 = last_frame_time s1"
    and "s2 = s1\<lparr>frame := frame s2\<rparr>"
    and "- 1 \<le> ret"
  using assms
  by (auto simp: sbus_input_read_def read_fd_def unat_frame_room length_store_bytes
      split: option.splits)

lemma sbus_input_unfold:
  assumes "s1 = sbus_input_gap now s"
    and "(ret, s2) = sbus_input_read dev s1"
    and "s3 = sbus_input_add now ret s2"
  shows "sbus_input n now dev s =
     (if ret < 1 then (sbus_locked now s2, s2)
      else if partial_frame_count s3 < 25 then (sbus_locked now s3, s3)
      else (sbus_locked now ((sbus_decode n now s3)\<lparr>partial_frame_count := 0\<rparr>),
            (sbus_decode n now s3)\<lparr>partial_frame_count := 0\<rparr>))"
  using assms(2) [symmetric]
  by (simp add: sbus_input_def sbus_input_fetch_def assms(1,3) Let_def)

lemma sbus_input_add_count:
  assumes "unat (partial_frame_count s1) \<le> 25" and "length (frame s1) = 25"
    and "(ret, s2) = sbus_input_read dev s1" and "1 \<le> ret"
  shows "unat (partial_frame_count (sbus_input_add now ret s2)) =
           unat (partial_frame_count s1) + nat ret"
    and "unat (partial_frame_count (sbus_input_add now ret s2)) \<le> 25"
    and "frame (sbus_input_add now ret s2) = frame s2"
    and "last_frame_time (sbus_input_add now ret s2) = last_frame_time s1"
proof -
  have b: "nat ret \<le> 25 - unat (partial_frame_count s1)"
    and p: "partial_frame_count s2 = partial_frame_count s1"
    and l: "last_frame_time s2 = last_frame_time s1"
    using sbus_input_read_facts [OF assms(1,2,3)] by simp_all
  have r: "ret = int (nat ret)" using assms(4) by simp
  have "unat (partial_frame_count s1) + nat ret \<le> 25"
    using b assms(1) by linarith
  then have "unat (partial_frame_count s1 + word_of_int (int (nat ret))) =
             unat (partial_frame_count s1) + nat ret"
    by (rule unat_count_add)
  then show "unat (partial_frame_count (sbus_input_add now ret s2)) =
           unat (partial_frame_count s1) + nat ret"
    using r p by (simp add: sbus_input_add_def)
  then show "unat (partial_frame_count (sbus_input_add now ret s2)) \<le> 25"
    using b assms(1) by linarith
  show "frame (sbus_input_add now ret s2) = frame s2"
    by (simp add: sbus_input_add_def)
  show "last_frame_time (sbus_input_add now ret s2) = last_frame_time s1"
    using l by (simp add: sbus_input_add_def)
qed

lemma sbus_same_eq:
  assumes "sbus_same s t"
  shows "t = s\<lparr>frame := frame t\<rparr>"
proof -
  have "t\<lparr>frame := frame s\<rparr> = s" using assms by (simp add: sbus_same_def)
  then have "s\<lparr>frame := frame t\<rparr> = t\<lparr>frame := frame s\<rparr>\<lparr>frame := frame t\<rparr>" by simp
  then show ?thesis by simp
qed

lemma sbus_same_refl:
  "length (frame s) = 25 \<Longrightarrow> unat (partial_frame_count s) \<le> 25 \<Longrightarrow> sbus_same s s"
  by (simp add: sbus_same_def)

lemma sbus_input_gap_same:
  assumes "sbus_same s t"
  shows "sbus_same (sbus_input_gap now s) (sbus_input_gap now t)"
proof -
  have t: "t = s\<lparr>frame := frame t\<rparr>" using assms by (rule sbus_same_eq)
  have "sbus_input_gap now (s\<lparr>frame := frame t\<rparr>) = (sbus_input_gap now s)\<lparr>frame := frame t\<rparr>"
    by (simp add: sbus_input_gap_def)
  then have "sbus_input_gap now t = (sbus_input_gap now s)\<lparr>frame := frame t\<rparr>"
    using t by simp
  then show ?thesis
    using assms by (auto simp: sbus_same_def sbus_input_gap_def)
qed

lemma sbus_input_fetch_same:
  assumes "sbus_same s t"
  shows "fst (sbus_input_fetch n now dev s) = fst (sbus_input_fetch n now dev t)
       \<and> sbus_same (snd (sbus_input_fetch n now dev s)) (snd (sbus_input_fetch n now dev t))"
proof -
  have t: "t = s\<lparr>frame := frame t\<rparr>" using assms by (rule sbus_same_eq)
  have len: "length (frame s) = 25" "length (frame t) = 25"
    and p: "unat (partial_frame_count s) \<le> 25"
    and tk: "take (unat (partial_frame_count s)) (frame s) =
             take (unat (partial_frame_count s)) (frame t)"
    using assms by (simp_all add: sbus_same_def)
  let ?p = "unat (partial_frame_count s)"
  show ?thesis
  proof (cases dev)
    case None
    then have "sbus_input_fetch n now dev s = (sbus_locked now s, s)"
      "sbus_input_fetch n now dev (s\<lparr>frame := frame t\<rparr>) =
         (sbus_locked now s, s\<lparr>frame := frame t\<rparr>)"
      by (simp_all add: sbus_input_fetch_def sbus_input_read_def read_fd_def sbus_locked_def)
    with t assms show ?thesis by simp
  next
    case (Some bs)
    define new where "new = take (25 - ?p) bs"
    define m where "m = length new"
    define fs where "fs = store_bytes (frame s) ?p new"
    define ft where "ft = store_bytes (frame t) ?p new"
    have m: "?p + m \<le> 25" using p by (simp add: m_def new_def)
    have fs: "fs = take ?p (frame s) @ new @ drop (?p + m) (frame s)"
      unfolding fs_def m_def using m len by (intro store_bytes_eq) (simp add: m_def)
    have ft: "ft = take ?p (frame t) @ new @ drop (?p + m) (frame t)"
      unfolding ft_def m_def using m len by (intro store_bytes_eq) (simp add: m_def)
    have lf: "length fs = 25" "length ft = 25"
      using len by (simp_all add: fs_def ft_def length_store_bytes)
    have rs: "sbus_input_read dev s = (int m, s\<lparr>frame := fs\<rparr>)"
      using p by (simp add: sbus_input_read_def read_fd_def Some unat_frame_room
          m_def new_def fs_def)
    have rt: "sbus_input_read dev (s\<lparr>frame := frame t\<rparr>) = (int m, s\<lparr>frame := ft\<rparr>)"
      using p by (simp add: sbus_input_read_def read_fd_def Some unat_frame_room
          m_def new_def ft_def)
    show ?thesis
    proof (cases "m = 0")
      case True
      then have "new = []" by (simp add: m_def)
      then have "fs = frame s" "ft = frame t" by (simp_all add: fs_def ft_def)
      then have "sbus_input_fetch n now dev s = (sbus_locked now s, s)"
        "sbus_input_fetch n now dev (s\<lparr>frame := frame t\<rparr>) =
           (sbus_locked now s, s\<lparr>frame := frame t\<rparr>)"
        using True rs rt by (simp_all add: sbus_input_fetch_def sbus_locked_def)
      with t assms show ?thesis by simp
    next
      case False
      define s3 where "s3 = sbus_input_add now (int m) (s\<lparr>frame := fs\<rparr>)"
      define t3 where "t3 = sbus_input_add now (int m) (s\<lparr>frame := ft\<rparr>)"
      have c3: "unat (partial_frame_count s3) = ?p + m"
        using unat_count_add [OF m] by (simp add: s3_def sbus_input_add_def)
      have t3: "t3 = s3\<lparr>frame := ft\<rparr>"
        by (simp add: s3_def t3_def sbus_input_add_def)
      have f3: "frame s3 = fs" "last_frame_time s3 = last_frame_time s"
        by (simp_all add: s3_def sbus_input_add_def)
      have tk3: "take (?p + m) fs = take (?p + m) ft"
        using tk len m by (simp add: fs ft m_def [symmetric])
      have pos: "\<not> int m < 1" using False by simp
      show ?thesis
      proof (cases "partial_frame_count s3 < 25")
        case True
        have "sbus_input_fetch n now dev s = (sbus_locked now s3, s3)"
          using pos rs True by (simp add: sbus_input_fetch_def s3_def [symmetric])
        moreover have "sbus_input_fetch n now dev (s\<lparr>frame := frame t\<rparr>) =
            (sbus_locked now t3, t3)"
          using pos rt True
          by (simp add: sbus_input_fetch_def t3_def [symmetric]) (simp add: t3)
        moreover have "sbus_locked now t3 = sbus_locked now s3"
          by (simp add: t3 sbus_locked_def)
        moreover have "sbus_same s3 t3"
          using c3 tk3 m lf by (simp add: sbus_same_def t3 f3)
        ultimately show ?thesis using t by simp
      next
        case full: False
        then have "?p + m = 25"
          using c3 m by (simp add: count_less_iff)
        then have "fs = ft"
          using tk3 lf by simp
        then have eq: "t3 = s3" by (simp add: t3 f3 [symmetric])
        define s4 where "s4 = (sbus_decode n now s3)\<lparr>partial_frame_count := 0\<rparr>"
        have "sbus_input_fetch n now dev s = (sbus_locked now s4, s4)"
          using pos rs full
          by (simp add: sbus_input_fetch_def s3_def [symmetric] s4_def [symmetric])
        moreover have "sbus_input_fetch n now dev (s\<lparr>frame := frame t\<rparr>) =
            (sbus_locked now s4, s4)"
          using pos rt full
          by (simp add: sbus_input_fetch_def t3_def [symmetric])
             (simp add: eq s4_def Let_def)
        moreover have "sbus_same s4 s4"
          by (rule sbus_same_refl) (simp_all add: s4_def sbus_decode_keeps f3 lf)
        ultimately show ?thesis using t by simp
      qed
    qed
  qed
qed

lemma sbus_input_same:
  assumes "sbus_same s t"
  shows "fst (sbus_input n now dev s) = fst (sbus_input n now dev t)
       \<and> sbus_same (snd (sbus_input n now dev s)) (snd (sbus_input n now dev t))"
  unfolding sbus_input_def
  by (rule sbus_input_fetch_same) (rule sbus_input_gap_same [OF assms])

lemma sbus_inputs_same:
  assumes "sbus_same s t"
  shows "fst (sbus_inputs n calls s) = fst (sbus_inputs n calls t)
       \<and> sbus_same (snd (sbus_inputs n calls s)) (snd (sbus_inputs n calls t))"
  using assms
proof (induction calls arbitrary: s t)
  case Nil
  then show ?case by simp
next
  case (Cons c calls)
  obtain now dev where c: "c = (now, dev)" by (cases c)
  have step: "fst (sbus_input n now dev s) = fst (sbus_input n now dev t)"
    "sbus_same (snd (sbus_input n now dev s)) (snd (sbus_input n now dev t))"
    using sbus_input_same [OF Cons.prems, of n now dev] by simp_all
  from Cons.IH [OF step(2)] step(1) show ?case
    by (simp add: c split_def Let_def)
qed

lemma store_bytes_whole:
  assumes "length bs = length buf"
  shows "store_bytes buf 0 bs = bs"
  using store_bytes_eq [of 0 bs buf] assms by simp

lemma sbus_input_read_full:
  assumes "partial_frame_count s1 = 0" and "length (frame s1) = 25" and "length bs = 25"
  shows "sbus_input_read (Some bs) s1 = (25, s1\<lparr>frame := bs\<rparr>)"
  using assms by (simp add: sbus_input_read_def read_fd_def store_bytes_whole)

lemma sbus_input_fetch_full:
  assumes "partial_frame_count s1 = 0" and "length (frame s1) = 25" and "length bs = 25"
  shows "sbus_input_fetch n now (Some bs) s1 =
     (sbus_locked now
        ((sbus_decode n now
           (s1\<lparr>frame := bs, last_rx_time := now, partial_frame_count := 25\<rparr>))
           \<lparr>partial_frame_count := 0\<rparr>),
      (sbus_decode n now
         (s1\<lparr>frame := bs, last_rx_time := now, partial_frame_count := 25\<rparr>))
         \<lparr>partial_frame_count := 0\<rparr>)"
  using assms
  by (simp add: sbus_input_fetch_def sbus_input_read_full sbus_input_add_def Let_def)

lemma sbus_input_last_frame_time:
  "last_frame_time (snd (sbus_input n now dev s)) =
     (if sbus_input_good now dev s then now else last_frame_time s)"
proof -
  define s1 where "s1 = sbus_input_gap now s"
  define ret where "ret = fst (sbus_input_read dev s1)"
  define s2 where "s2 = snd (sbus_input_read dev s1)"
  define s3 where "s3 = sbus_input_add now ret s2"
  have rd: "(ret, s2) = sbus_input_read dev s1"
    by (simp add: ret_def s2_def)
  have l2: "last_frame_time s2 = last_frame_time s"
    using rd
    by (auto simp: s1_def sbus_input_read_def sbus_input_gap_def split: prod.splits)
  have l3: "last_frame_time s3 = last_frame_time s"
    using l2 by (simp add: s3_def sbus_input_add_def)
  have good: "sbus_input_good now dev s =
      (1 \<le> ret \<and> \<not> partial_frame_count s3 < 25 \<and> sbus_frame_good (frame s3))"
    using rd [symmetric]
    by (simp add: sbus_input_good_def s1_def [symmetric] s3_def [symmetric] Let_def)
  show ?thesis
    using sbus_input_unfold [OF s1_def rd s3_def, of n] l2 l3 good
    by (auto simp: sbus_decode_last_frame_time)
qed

lemma sbus_inputs_last_frame_time:
  "last_frame_time (snd (sbus_inputs n calls s)) =
     (case sbus_last_good n calls s of Some t \<Rightarrow> t | None \<Rightarrow> last_frame_time s)"
proof (induction calls arbitrary: s)
  case Nil
  then show ?case by simp
next
  case (Cons c calls)
  obtain now dev where c: "c = (now, dev)" by (cases c)
  show ?case
    using Cons.IH [of "snd (sbus_input n now dev s)"]
    by (simp add: c split_def Let_def sbus_input_last_frame_time split: option.splits)
qed

lemma sbus_input_keeps_count:
  assumes "unat (partial_frame_count s) \<le> 25" and "length (frame s) = 25"
  shows "unat (partial_frame_count (snd (sbus_input n now dev s))) \<le> 25
       \<and> length (frame (snd (sbus_input n now dev s))) = 25"
proof -
  define s1 where "s1 = sbus_input_gap now s"
  define ret where "ret = fst (sbus_input_read dev s1)"
  define s2 where "s2 = snd (sbus_input_read dev s1)"
  define s3 where "s3 = sbus_input_add now ret s2"
  have rd: "(ret, s2) = sbus_input_read dev s1"
    by (simp add: ret_def s2_def)
  have g: "unat (partial_frame_count s1) \<le> 25" "length (frame s1) = 25"
    using assms by (simp_all add: s1_def sbus_input_gap_count)
  note r = sbus_input_read_facts [OF g rd]
  have add: "1 \<le> ret \<Longrightarrow> unat (partial_frame_count s3) \<le> 25 \<and> length (frame s3) = 25"
    using sbus_input_add_count [OF g rd, of now] r(2) by (simp add: s3_def)
  show ?thesis
    using sbus_input_unfold [OF s1_def rd s3_def, of n] g r(2,3) add
    by (auto simp: sbus_decode_keeps)
qed

lemma sbus_inputs_keep_count:
  assumes "unat (partial_frame_count s) \<le> 25" and "length (frame s) = 25"
  shows "unat (partial_frame_count (snd (sbus_inputs n calls s))) \<le> 25
       \<and> length (frame (snd (sbus_inputs n calls s))) = 25"
  using assms
proof (induction calls arbitrary: s)
  case Nil
  then show ?case by simp
next
  case (Cons c calls)
  obtain now dev where c: "c = (now, dev)" by (cases c)
  have "unat (partial_frame_count (snd (sbus_input n now dev s))) \<le> 25"
    "length (frame (snd (sbus_input n now dev s))) = 25"
    using sbus_input_keeps_count [OF Cons.prems, of n now dev] by simp_all
  from Cons.IH [OF this] show ?case
    by (simp add: c split_def Let_def)
qed

lemma sbus_inputs_snoc:
  "sbus_inputs n (calls @ [(now, dev)]) s =
     (fst (sbus_inputs n calls s) @ [fst (sbus_input n now dev (snd (sbus_inputs n calls s)))],
      snd (sbus_input n now dev (snd (sbus_inputs n calls s))))"
proof (induction calls arbitrary: s)
  case Nil
  then show ?case by (simp add: split_def Let_def)
next
  case (Cons c calls)
  obtain now' dev' where c: "c = (now', dev')" by (cases c)
  show ?case
    by (simp add: c split_def Let_def Cons.IH)
qed

lemma sbus_input_returns:
  "fst (sbus_input n now dev s) = (now - last_frame_time (snd (sbus_input n now dev s)) < 200000)"
proof -
  define s1 where "s1 = sbus_input_gap now s"
  define ret where "ret = fst (sbus_input_read dev s1)"
  define s2 where "s2 = snd (sbus_input_read dev s1)"
  define s3 where "s3 = sbus_input_add now ret s2"
  have rd: "(ret, s2) = sbus_input_read dev s1"
    by (simp add: ret_def s2_def)
  show ?thesis
    using sbus_input_unfold [OF s1_def rd s3_def, of n]
    by (simp add: sbus_locked_def)
qed

lemma sbus_init_count:
  "partial_frame_count (sbus_init now s) = 0" "frame (sbus_init now s) = frame s"
  by (simp_all add: sbus_init_def)

subsection \<open>The value returned by the byte intake\<close>

text \<open>
  \<open>sbus_input\<close> returns whether \<open>last_frame_time\<close>, as it stands at the end of the
  call, is less than 200000 microseconds before the current time (by a subtraction
  modulo \<open>2 ^ 64\<close>). A call that decodes a good frame sets \<open>last_frame_time\<close> to the
  current time; any other call leaves it as it was. Over a sequence of calls from a
  state \<open>s0\<close> it is the clock value of the most recent call that decoded a good
  frame, and the value it had in \<open>s0\<close> as long as there is none.
\<close>

lemma sbus_input_lock_value:
  assumes "(locked, s') = sbus_input n now dev s"
  shows "locked = (now - last_frame_time s' < 200000)
       \<and> (sbus_input_good now dev s \<longrightarrow> last_frame_time s' = now \<and> locked)
       \<and> (\<not> sbus_input_good now dev s \<longrightarrow>
            last_frame_time s' = last_frame_time s
          \<and> locked = (now - last_frame_time s < 200000)
          \<and> (200000 < now - last_frame_time s \<longrightarrow> \<not> locked))
       \<and> last (fst (sbus_inputs n (calls @ [(now, dev)]) s0)) =
           (now - (case sbus_last_good n (calls @ [(now, dev)]) s0 of
                     Some t \<Rightarrow> t | None \<Rightarrow> last_frame_time s0) < 200000)"
proof -
  have l: "locked = fst (sbus_input n now dev s)" and s': "s' = snd (sbus_input n now dev s)"
    using assms by (simp_all add: prod_eq_iff)
  have ret: "locked = (now - last_frame_time s' < 200000)"
    unfolding l s' by (rule sbus_input_returns)
  have t: "last_frame_time s' = (if sbus_input_good now dev s then now else last_frame_time s)"
    unfolding s' by (rule sbus_input_last_frame_time)
  have run: "last (fst (sbus_inputs n (calls @ [(now, dev)]) s0)) =
           (now - (case sbus_last_good n (calls @ [(now, dev)]) s0 of
                     Some t \<Rightarrow> t | None \<Rightarrow> last_frame_time s0) < 200000)"
    using sbus_inputs_last_frame_time [of n "calls @ [(now, dev)]" s0]
      sbus_input_returns [of n now dev "snd (sbus_inputs n calls s0)"]
    by (simp add: sbus_inputs_snoc)
  show ?thesis
    using ret t run by auto
qed

section \<open>Properties\<close>

text \<open>
  C1. For a 25-byte frame with the two markers (byte 0 is 0x0F, byte 24 is 0x00),
  \<open>sbus_decode\<close> treats the frame as a loss of connection exactly when bit 2
  (signal lost) and bit 3 (failsafe) of byte 23 are both set. In that case the only
  change is that the channel count becomes 0: the channel data and the timestamp of
  the last good frame keep their values. In every other case, so also when exactly
  one of the two bits is set, the frame is decoded: the timestamp of the last good
  frame becomes the frame time, the channel count is \<open>chancount\<close> and the first
  \<open>chancount\<close> channel values are those computed from the frame.
\<close>

theorem sbus_decode_failsafe:
  assumes "length (frame s) = SBUS_FRAME_SIZE"
    and "frame s ! 0 = 0x0f" and "frame s ! 24 = 0x00"
    and "sbus_chancount n \<le> length (rc_channel_data s)"
  shows "(bit (frame s ! 23) 2 \<and> bit (frame s ! 23) 3 \<longrightarrow>
            sbus_decode n t s = s\<lparr>rc_channels := 0\<rparr>
          \<and> rc_channels (sbus_decode n t s) = 0
          \<and> rc_channel_data (sbus_decode n t s) = rc_channel_data s
          \<and> last_frame_time (sbus_decode n t s) = last_frame_time s)
       \<and> (\<not> (bit (frame s ! 23) 2 \<and> bit (frame s ! 23) 3) \<longrightarrow>
            last_frame_time (sbus_decode n t s) = t
          \<and> rc_channels (sbus_decode n t s) = sbus_chancount n
          \<and> take (sbus_chancount n) (rc_channel_data (sbus_decode n t s)) =
              sbus_decoded_channels n (frame s)
          \<and> rc_channels_timestamp (sbus_decode n t s) = t
          \<and> fmu_report_due (sbus_decode n t s))"
  using sbus_decode_good [OF assms(2,3,4), of t]
  by (simp add: length_sbus_decoded)

theorem sbus_decode_failsafe_witness:
  "sbus_decode 12 7 (sbus_frame_state 12 (sbus_flag_frame 0x0c)) =
     (sbus_frame_state 12 (sbus_flag_frame 0x0c))\<lparr>rc_channels := 0\<rparr>
   \<and> last_frame_time (sbus_decode 12 7 (sbus_frame_state 12 (sbus_flag_frame 0x04))) = 7
   \<and> rc_channels (sbus_decode 12 7 (sbus_frame_state 12 (sbus_flag_frame 0x04))) = 12
   \<and> last_frame_time (sbus_decode 12 7 (sbus_frame_state 12 (sbus_flag_frame 0x08))) = 7
   \<and> rc_channels (sbus_decode 12 7 (sbus_frame_state 12 (sbus_flag_frame 0x08))) = 12
   \<and> take 12 (rc_channel_data (sbus_decode 12 7 (sbus_frame_state 12 (sbus_flag_frame 0x08)))) =
       sbus_decoded_channels 12 (sbus_flag_frame 0x08)"
  using sbus_decode_failsafe [of "sbus_frame_state 12 (sbus_flag_frame 0x0c)" 12 7]
    sbus_decode_failsafe [of "sbus_frame_state 12 (sbus_flag_frame 0x04)" 12 7]
    sbus_decode_failsafe [of "sbus_frame_state 12 (sbus_flag_frame 0x08)" 12 7]
  by (simp add: sbus_frame_state_def sbus_zero_state_def nth_flag_frame sbus_chancount_def)

text \<open>
  C2, amended. For every successfully decoded frame, every channel value written is
  between 998 and 2021. The statement leaves out the entry 17, the second switch
  channel.
\<close>

theorem sbus_decode_range:
  assumes "length (frame s) = SBUS_FRAME_SIZE"
    and "frame s ! 0 = 0x0f" and "frame s ! 24 = 0x00"
    and "\<not> (bit (frame s ! 23) 2 \<and> bit (frame s ! 23) 3)"
    and "sbus_chancount n \<le> length (rc_channel_data s)"
    and "i < sbus_chancount n" and "i \<noteq> 17"
  shows "998 \<le> rc_channel_data (sbus_decode n t s) ! i
       \<and> rc_channel_data (sbus_decode n t s) ! i \<le> 2021"
  using sbus_decode_good [OF assms(2,3,5), of t] assms(4,6)
    sbus_channel_output_range [OF assms(6,7), of "frame s"]
  by (simp add: nth_sbus_decoded nth_append length_sbus_decoded)

theorem sbus_decode_range_witness:
  "998 \<le> rc_channel_data (sbus_decode 12 0 (sbus_frame_state 12 (sbus_flag_frame 0))) ! 3
   \<and> rc_channel_data (sbus_decode 12 0 (sbus_frame_state 12 (sbus_flag_frame 0))) ! 3 \<le> 2021"
  using sbus_decode_range [of "sbus_frame_state 12 (sbus_flag_frame 0)" 12 3 0]
  by (simp add: sbus_frame_state_def sbus_zero_state_def nth_flag_frame sbus_chancount_def)

text \<open>
  The range of 1000 to 2000 does not hold: on a frame whose payload is zero, which
  is decoded, channel 0 is stored as 998.
\<close>

theorem sbus_decode_range_counterexample:
  "\<not> (1000 \<le> rc_channel_data (sbus_decode 12 0 (sbus_frame_state 12 (sbus_flag_frame 0))) ! 0
      \<and> rc_channel_data (sbus_decode 12 0 (sbus_frame_state 12 (sbus_flag_frame 0))) ! 0 \<le> 2000)"
proof -
  have "sbus_channel_value (sbus_flag_frame 0) 0 = 0"
    by (simp add: sbus_channel_value_def sbus_decoder_def pick_def sbus_piece_def
        sbus_flag_frame_def nth_append)
  then have "sbus_channel_output 12 (sbus_flag_frame 0) 0 = 998"
    by (simp add: sbus_channel_output_def)
  moreover have "(0::nat) < sbus_chancount 12"
    by (simp add: sbus_chancount_def)
  ultimately have
    "rc_channel_data (sbus_decode 12 0 (sbus_frame_state 12 (sbus_flag_frame 0))) ! 0 = 998"
    using sbus_decode_good [of "sbus_frame_state 12 (sbus_flag_frame 0)" 12 0]
    by (simp add: sbus_frame_state_def sbus_zero_state_def nth_flag_frame nth_sbus_decoded
        sbus_chancount_def)
  then show ?thesis by simp
qed

text \<open>
  C3. With 18 channels supported and a frame whose flag byte is 0x02 (bit 1 set),
  \<open>sbus_decode\<close> stores 2998 for channel 18 (index 17), since the masked bit is
  multiplied by 1000 without being shifted down to 0 or 1. Channel 17 (index 16),
  whose bit is bit 0, gives 1998 when its bit is set.
\<close>

theorem sbus_decode_switch_18:
  "rc_channel_data (sbus_decode 18 0 (sbus_frame_state 18 (sbus_flag_frame 0x02))) ! 17 = 2998
   \<and> rc_channel_data (sbus_decode 18 0 (sbus_frame_state 18 (sbus_flag_frame 0x03))) ! 16 = 1998"
  using sbus_decode_good [of "sbus_frame_state 18 (sbus_flag_frame 0x02)" 18 0]
    sbus_decode_good [of "sbus_frame_state 18 (sbus_flag_frame 0x03)" 18 0]
  by (simp add: sbus_frame_state_def sbus_zero_state_def nth_flag_frame nth_sbus_decoded
      sbus_chancount_def sbus_channel_output_def sbus_switch_0 sbus_switch_Suc_0)

theorem sbus_decode_switch_18_witness:
  "rc_channel_data (sbus_decode 18 0 (sbus_frame_state 18 (sbus_flag_frame 0x02))) ! 17 \<noteq> 1998"
  using sbus_decode_switch_18 by simp

text \<open>
  C4. For every 25-byte buffer in which byte 0 is not 0x0F or byte 24 is not 0x00,
  \<open>sbus_decode\<close> increments the dropped-frame counter by exactly 1 (an \<open>unsigned\<close>,
  which counts modulo \<open>2 ^ 32\<close>) and changes nothing else: the channel data, the
  channel count, the timestamp of the last good frame and every other variable keep
  their values, so no frame is decoded.
\<close>

theorem sbus_decode_bad_markers:
  assumes "length (frame s) = SBUS_FRAME_SIZE"
    and "frame s ! 0 \<noteq> 0x0f \<or> frame s ! 24 \<noteq> 0x00"
  shows "sbus_decode n frame_time s = s\<lparr>sbus_frame_drops := sbus_frame_drops s + 1\<rparr>
    \<and> sbus_frame_drops (sbus_decode n frame_time s) = sbus_frame_drops s + 1
    \<and> (unat (sbus_frame_drops s) < 2 ^ 32 - 1 \<longrightarrow>
         unat (sbus_frame_drops (sbus_decode n frame_time s)) = unat (sbus_frame_drops s) + 1)
    \<and> rc_channel_data (sbus_decode n frame_time s) = rc_channel_data s
    \<and> rc_channels (sbus_decode n frame_time s) = rc_channels s
    \<and> rc_channels_timestamp (sbus_decode n frame_time s) = rc_channels_timestamp s
    \<and> fmu_report_due (sbus_decode n frame_time s) = fmu_report_due s
    \<and> last_frame_time (sbus_decode n frame_time s) = last_frame_time s"
proof -
  have eq: "sbus_decode n frame_time s = s\<lparr>sbus_frame_drops := sbus_frame_drops s + 1\<rparr>"
    using assms(2) by (simp add: sbus_decode_def)
  have "unat (sbus_frame_drops s) < 2 ^ 32 - 1 \<Longrightarrow>
        unat (sbus_frame_drops s + 1) = unat (sbus_frame_drops s) + 1"
    by (simp add: unat_word_ariths)
  with eq show ?thesis by simp
qed

theorem sbus_decode_bad_markers_witness:
  "length (frame (sbus_zero_state 12)) = SBUS_FRAME_SIZE
   \<and> frame (sbus_zero_state 12) ! 0 \<noteq> 0x0f
   \<and> sbus_frame_drops (sbus_decode 12 5 (sbus_zero_state 12)) = 1
   \<and> rc_channel_data (sbus_decode 12 5 (sbus_zero_state 12)) = replicate 12 0
   \<and> last_frame_time (sbus_decode 12 5 (sbus_zero_state 12)) = 0
   \<and> frame (sbus_frame_state 12 (0x0f # replicate 24 1)) ! 0 = 0x0f
   \<and> frame (sbus_frame_state 12 (0x0f # replicate 24 1)) ! 24 \<noteq> 0x00
   \<and> sbus_decode 12 5 (sbus_frame_state 12 (0x0f # replicate 24 1)) =
       (sbus_frame_state 12 (0x0f # replicate 24 1))\<lparr>sbus_frame_drops := 1\<rparr>"
  using sbus_decode_bad_markers [of "sbus_zero_state 12" 12 5]
    sbus_decode_bad_markers [of "sbus_frame_state 12 (0x0f # replicate 24 1)" 12 5]
  by (simp add: sbus_zero_state_def sbus_frame_state_def)

text \<open>
  C5. Round trip. Sixteen channel values between 0 and 2047 are packed by the
  synthetic encoder \<open>sbus_encode\<close> into a 25-byte frame in the S.bus bit layout, with
  the two markers and a flag byte of 0. \<open>sbus_decode\<close> on that frame stores, for
  every channel that it decodes through the matrix (index below 16 and below
  \<open>chancount\<close>), exactly the value divided by 2, rounded down, plus 998.
\<close>

theorem sbus_roundtrip:
  assumes "length vals = 16" and "\<forall>v \<in> set vals. v < 2048"
    and "channel < 16" and "channel < sbus_chancount n"
    and "sbus_chancount n \<le> length (rc_channel_data s)"
  shows "rc_channel_data (sbus_decode n t (s\<lparr>frame := sbus_encode vals\<rparr>)) ! channel =
         vals ! channel div 2 + 998"
proof -
  let ?s = "s\<lparr>frame := sbus_encode vals\<rparr>"
  have v: "vals ! channel < 2048"
    using assms(1,2,3) by simp
  have "sbus_channel_value (sbus_encode vals) channel = of_nat (vals ! channel)"
    using sbus_channel_value_encode [OF assms(3), of vals]
      sbus_pack_field [of channel vals] assms(1,2,3) by simp
  moreover have "unat (of_nat (vals ! channel) :: u32) = vals ! channel"
    using v by (simp add: unat_of_nat)
  moreover have "(of_nat (vals ! channel) :: u32) \<le> 0x7ff"
    using v by (simp add: word_le_nat_alt unat_of_nat)
  ultimately have out: "sbus_channel_output n (sbus_encode vals) channel =
      vals ! channel div 2 + 998"
    using assms(3) by (simp add: sbus_channel_output_def unat_normalise)
  have "sbus_decode n t ?s =
      ?s\<lparr>last_frame_time := t,
         rc_channel_data := sbus_decoded_channels n (frame ?s) @
                              drop (sbus_chancount n) (rc_channel_data ?s),
         rc_channels := sbus_chancount n,
         rc_channels_timestamp := t,
         fmu_report_due := True\<rparr>"
    using sbus_decode_good [of ?s n t] assms(5)
    by (simp add: sbus_encode_markers)
  then show ?thesis
    using assms(4) out
    by (simp add: nth_append length_sbus_decoded nth_sbus_decoded)
qed

theorem sbus_roundtrip_witness:
  "rc_channel_data (sbus_decode 12 0
     ((sbus_zero_state 12)\<lparr>frame := sbus_encode
        [1024, 0, 2047, 1, 2, 3, 4, 5, 6, 7, 8, 9, 10, 11, 12, 13]\<rparr>)) ! 0 = 1510
   \<and> rc_channel_data (sbus_decode 12 0
     ((sbus_zero_state 12)\<lparr>frame := sbus_encode
        [1024, 0, 2047, 1, 2, 3, 4, 5, 6, 7, 8, 9, 10, 11, 12, 13]\<rparr>)) ! 2 = 2021"
  using sbus_roundtrip [of "[1024, 0, 2047, 1, 2, 3, 4, 5, 6, 7, 8, 9, 10, 11, 12, 13]"
      0 12 "sbus_zero_state 12" 0]
    sbus_roundtrip [of "[1024, 0, 2047, 1, 2, 3, 4, 5, 6, 7, 8, 9, 10, 11, 12, 13]"
      2 12 "sbus_zero_state 12" 0]
  by (simp add: sbus_chancount_def sbus_zero_state_def)

text \<open>
  C6. When \<open>sbus_input\<close> is called more than 3ms after the last received byte with
  a partial count between 1 and 24, the dropped-frame counter goes up by exactly 1
  (modulo \<open>2 ^ 32\<close>) and the partial count is reset to 0 before the read, which
  then stores from the start of the buffer. A complete frame of 25 bytes read in that
  call is decoded as it stands; and whatever calls follow, the lock values returned
  and the resulting state are the same for any other discarded prefix \<open>junk\<close> and
  count \<open>c\<close>, up to the bytes of the buffer beyond the partial count, which are
  overwritten before the decoder reads them.
\<close>

theorem sbus_input_gap_discards:
  assumes "3000 < now - last_rx_time s"
    and "0 < unat (partial_frame_count s)" and "unat (partial_frame_count s) \<le> 24"
    and "length (frame s) = SBUS_FRAME_SIZE"
    and "length junk = SBUS_FRAME_SIZE" and "0 < unat c" and "unat c \<le> 24"
  shows "sbus_input_gap now s =
           s\<lparr>sbus_frame_drops := sbus_frame_drops s + 1, partial_frame_count := 0\<rparr>
       \<and> sbus_input n now dev s =
           sbus_input_fetch n now dev
             (s\<lparr>sbus_frame_drops := sbus_frame_drops s + 1, partial_frame_count := 0\<rparr>)
       \<and> (length bs = SBUS_FRAME_SIZE \<longrightarrow>
            snd (sbus_input n now (Some bs) s) =
              (sbus_decode n now
                 (s\<lparr>sbus_frame_drops := sbus_frame_drops s + 1, frame := bs,
                    last_rx_time := now, partial_frame_count := 25\<rparr>))
                 \<lparr>partial_frame_count := 0\<rparr>)
       \<and> fst (sbus_inputs n ((now, dev) # calls) s) =
           fst (sbus_inputs n ((now, dev) # calls) (s\<lparr>frame := junk, partial_frame_count := c\<rparr>))
       \<and> sbus_same (snd (sbus_inputs n ((now, dev) # calls) s))
           (snd (sbus_inputs n ((now, dev) # calls) (s\<lparr>frame := junk, partial_frame_count := c\<rparr>)))"
proof -
  let ?t = "s\<lparr>frame := junk, partial_frame_count := c\<rparr>"
  let ?s1 = "s\<lparr>sbus_frame_drops := sbus_frame_drops s + 1, partial_frame_count := 0\<rparr>"
  have ps: "0 < partial_frame_count s"
    using assms(2) by (simp add: word_less_nat_alt)
  have pc: "0 < c"
    using assms(6) by (simp add: word_less_nat_alt)
  have gs: "sbus_input_gap now s = ?s1"
    using assms(1) ps by (simp add: sbus_input_gap_def)
  have gt: "sbus_input_gap now ?t = ?s1\<lparr>frame := junk\<rparr>"
    using assms(1) pc by (simp add: sbus_input_gap_def)
  have in_s: "sbus_input n now dev s = sbus_input_fetch n now dev ?s1"
    by (simp add: sbus_input_def gs)
  have full: "length bs = 25 \<Longrightarrow>
      snd (sbus_input n now (Some bs) s) =
        (sbus_decode n now
           (s\<lparr>sbus_frame_drops := sbus_frame_drops s + 1, frame := bs,
              last_rx_time := now, partial_frame_count := 25\<rparr>))
           \<lparr>partial_frame_count := 0\<rparr>"
    using assms(4) sbus_input_fetch_full [of ?s1 bs n now]
    by (simp add: sbus_input_def gs)
  have same1: "sbus_same ?s1 (?s1\<lparr>frame := junk\<rparr>)"
    using assms(4,5) by (simp add: sbus_same_def)
  have step: "fst (sbus_input n now dev s) = fst (sbus_input n now dev ?t)"
    "sbus_same (snd (sbus_input n now dev s)) (snd (sbus_input n now dev ?t))"
    using sbus_input_fetch_same [OF same1, of n now dev]
    by (simp_all add: sbus_input_def gs gt)
  have run: "fst (sbus_inputs n ((now, dev) # calls) s) =
           fst (sbus_inputs n ((now, dev) # calls) ?t)
       \<and> sbus_same (snd (sbus_inputs n ((now, dev) # calls) s))
           (snd (sbus_inputs n ((now, dev) # calls) ?t))"
    using sbus_inputs_same [OF step(2), of n calls] step(1)
    by (simp add: split_def Let_def)
  show ?thesis
    using gs in_s full run by simp
qed

theorem sbus_input_gap_discards_witness:
  "sbus_input_gap 5000 ((sbus_zero_state 12)\<lparr>partial_frame_count := 3\<rparr>) =
     (sbus_zero_state 12)\<lparr>sbus_frame_drops := 1, partial_frame_count := 0\<rparr>
   \<and> snd (sbus_input 12 5000 (Some (sbus_flag_frame 0))
        ((sbus_zero_state 12)\<lparr>partial_frame_count := 3\<rparr>)) =
      (sbus_decode 12 5000
         ((sbus_zero_state 12)\<lparr>sbus_frame_drops := 1, frame := sbus_flag_frame 0,
            last_rx_time := 5000, partial_frame_count := 25\<rparr>))
         \<lparr>partial_frame_count := 0\<rparr>
   \<and> fst (sbus_inputs 12 [(5000, Some [0x0f, 1, 2]), (5100, None)]
        ((sbus_zero_state 12)\<lparr>partial_frame_count := 3\<rparr>)) =
     fst (sbus_inputs 12 [(5000, Some [0x0f, 1, 2]), (5100, None)]
        ((sbus_zero_state 12)\<lparr>frame := replicate 25 0xaa, partial_frame_count := 7\<rparr>))"
proof -
  have "(3000 :: hrt_abstime) < 5000 - last_rx_time ((sbus_zero_state 12)\<lparr>partial_frame_count := 3\<rparr>)"
    "0 < unat (partial_frame_count ((sbus_zero_state 12)\<lparr>partial_frame_count := 3\<rparr>))"
    "unat (partial_frame_count ((sbus_zero_state 12)\<lparr>partial_frame_count := 3\<rparr>)) \<le> 24"
    "length (frame ((sbus_zero_state 12)\<lparr>partial_frame_count := 3\<rparr>)) = 25"
    "length (replicate 25 (0xaa :: u8)) = 25" "0 < unat (7 :: u32)" "unat (7 :: u32) \<le> 24"
    by (simp_all add: sbus_zero_state_def)
  from sbus_input_gap_discards [OF this, of 12 "Some [0x0f, 1, 2]" "sbus_flag_frame 0" "[(5100, None)]"]
    sbus_input_gap_discards [OF this, of 12 "Some (sbus_flag_frame 0)" "sbus_flag_frame 0" "[]"]
  show ?thesis
    by (simp add: nth_flag_frame sbus_zero_state_def del: sbus_inputs.simps)
qed

text \<open>
  C7. The variables are as C initialises them, \<open>sbus_init\<close> runs at 500
  microseconds, and \<open>sbus_input\<close> is called at 1000 microseconds with a read that
  fails. No good frame has been decoded, in this call or before, and the call
  returns true: \<open>last_frame_time\<close> is 0 from the start, \<open>sbus_init\<close> does not set it,
  and 1000 - 0 is below 200000. The same holds with a read that returns one byte.
\<close>

theorem sbus_input_locked_without_frame:
  "fst (sbus_input 12 1000 None (sbus_init 500 (sbus_zero_state 12)))
   \<and> sbus_last_good 12 [(1000, None)] (sbus_init 500 (sbus_zero_state 12)) = None
   \<and> last_frame_time (sbus_init 500 (sbus_zero_state 12)) = 0
   \<and> fst (sbus_input 12 1000 (Some [0x0f]) (sbus_init 500 (sbus_zero_state 12)))
   \<and> sbus_last_good 12 [(1000, Some [0x0f])] (sbus_init 500 (sbus_zero_state 12)) = None"
  by (simp add: sbus_input_def sbus_input_fetch_def sbus_input_gap_def sbus_input_read_def
      read_fd_def sbus_input_add_def sbus_locked_def sbus_input_good_def sbus_init_def
      sbus_zero_state_def)

theorem sbus_input_locked_without_frame_witness:
  "fst (sbus_input 12 1000 None (sbus_init 500 (sbus_zero_state 12))) \<noteq>
     (sbus_last_good 12 [(1000, None)] (sbus_init 500 (sbus_zero_state 12)) \<noteq> None)"
  using sbus_input_locked_without_frame by simp

text \<open>
  C8. Every call of \<open>sbus_input\<close> preserves the invariant that the partial count is
  at most 25 and the buffer has 25 bytes, and so does every sequence of calls. The
  read is asked for 25 minus the partial count bytes and returns no more; the count
  after adding the bytes read is at most 25; \<open>sbus_decode\<close> is called only in the
  branch where that count is not below 25, where it is exactly 25 and the buffer has
  25 bytes, and the count is 0 afterwards.
\<close>

theorem sbus_input_count_invariant:
  assumes "unat (partial_frame_count s) \<le> SBUS_FRAME_SIZE"
    and "length (frame s) = SBUS_FRAME_SIZE"
    and "s1 = sbus_input_gap now s"
    and "(ret, s2) = sbus_input_read dev s1"
    and "s3 = sbus_input_add now ret s2"
    and "(locked, s') = sbus_input n now dev s"
  shows "unat (partial_frame_count s1) \<le> SBUS_FRAME_SIZE
       \<and> nat ret \<le> SBUS_FRAME_SIZE - unat (partial_frame_count s1)
       \<and> length (frame s2) = SBUS_FRAME_SIZE
       \<and> (1 \<le> ret \<longrightarrow>
            unat (partial_frame_count s3) = unat (partial_frame_count s1) + nat ret
          \<and> unat (partial_frame_count s3) \<le> SBUS_FRAME_SIZE)
       \<and> s' = (if ret < 1 then s2
               else if partial_frame_count s3 < 25 then s3
               else (sbus_decode n now s3)\<lparr>partial_frame_count := 0\<rparr>)
       \<and> (1 \<le> ret \<and> \<not> partial_frame_count s3 < 25 \<longrightarrow>
            unat (partial_frame_count s3) = SBUS_FRAME_SIZE
          \<and> length (frame s3) = SBUS_FRAME_SIZE
          \<and> partial_frame_count s' = 0)
       \<and> unat (partial_frame_count s') \<le> SBUS_FRAME_SIZE
       \<and> length (frame s') = SBUS_FRAME_SIZE
       \<and> unat (partial_frame_count (snd (sbus_inputs n calls s))) \<le> SBUS_FRAME_SIZE
       \<and> length (frame (snd (sbus_inputs n calls s))) = SBUS_FRAME_SIZE"
proof -
  have g: "unat (partial_frame_count s1) \<le> 25" "length (frame s1) = 25"
    using assms(1,2) by (simp_all add: assms(3) sbus_input_gap_count)
  note rd = sbus_input_read_facts [OF g assms(4)]
  have s': "s' = (if ret < 1 then s2
               else if partial_frame_count s3 < 25 then s3
               else (sbus_decode n now s3)\<lparr>partial_frame_count := 0\<rparr>)"
    using assms(6) sbus_input_unfold [OF assms(3,4,5), of n]
    by (simp split: if_splits)
  have add: "1 \<le> ret \<Longrightarrow>
      unat (partial_frame_count s3) = unat (partial_frame_count s1) + nat ret
    \<and> unat (partial_frame_count s3) \<le> 25 \<and> length (frame s3) = 25"
    using sbus_input_add_count [OF g assms(4), of now] rd(2)
    by (simp add: assms(5))
  have full: "1 \<le> ret \<Longrightarrow> \<not> partial_frame_count s3 < 25 \<Longrightarrow>
      unat (partial_frame_count s3) = 25"
    using add by (simp add: count_less_iff)
  have c2: "unat (partial_frame_count s2) \<le> 25"
    using rd(3) g(1) by simp
  have run: "unat (partial_frame_count (snd (sbus_inputs n calls s))) \<le> 25
       \<and> length (frame (snd (sbus_inputs n calls s))) = 25"
    using assms(1,2) by (rule sbus_inputs_keep_count)
  show ?thesis
    using g rd(1,2) add full s' c2 run
    by (auto simp: sbus_decode_keeps count_less_iff)
qed

theorem sbus_input_count_invariant_witness:
  "partial_frame_count (snd (sbus_input 12 100 (Some (replicate 10 0xaa))
      ((sbus_zero_state 12)\<lparr>partial_frame_count := 20\<rparr>))) = 0
   \<and> fst (sbus_input_read (Some (replicate 10 0xaa))
        (sbus_input_gap 100 ((sbus_zero_state 12)\<lparr>partial_frame_count := 20\<rparr>))) = 5
   \<and> length (frame (snd (sbus_input 12 100 (Some (replicate 10 0xaa))
      ((sbus_zero_state 12)\<lparr>partial_frame_count := 20\<rparr>)))) = 25"
proof -
  let ?s = "(sbus_zero_state 12)\<lparr>partial_frame_count := 20\<rparr>"
  let ?dev = "Some (replicate 10 (0xaa :: u8))"
  let ?s1 = "sbus_input_gap 100 ?s"
  let ?rd = "sbus_input_read ?dev ?s1"
  let ?s3 = "sbus_input_add 100 (fst ?rd) (snd ?rd)"
  let ?res = "sbus_input 12 100 ?dev ?s"
  have ret: "fst ?rd = 5"
    by (simp add: sbus_input_read_def read_fd_def sbus_input_gap_def sbus_zero_state_def)
  have c: "partial_frame_count ?s3 = 25"
    by (simp add: ret sbus_input_add_def sbus_input_read_def read_fd_def sbus_input_gap_def
        sbus_zero_state_def)
  have inv: "unat (partial_frame_count ?s) \<le> 25" "length (frame ?s) = 25"
    by (simp_all add: sbus_zero_state_def)
  show ?thesis
    using sbus_input_count_invariant [where s = ?s and now = 100 and dev = ?dev and n = 12,
        OF inv refl prod.collapse refl prod.collapse] ret c
    by (simp add: sbus_decode_keeps)
qed

text \<open>
  C9. For a 25-byte frame with the two markers and not both failsafe bits set, the
  channel count and the channel values that \<open>sbus_decode\<close> produces depend on the
  frame alone: two runs on the same frame, from any two states and with any two
  frame times, give the same channel count and the same first \<open>chancount\<close> channel
  values, namely those of \<open>sbus_decoded_channels\<close>, a function of the frame.
\<close>

theorem sbus_decode_deterministic:
  assumes "frame s1 = frame s2"
    and "length (frame s1) = SBUS_FRAME_SIZE"
    and "frame s1 ! 0 = 0x0f" and "frame s1 ! 24 = 0x00"
    and "\<not> (bit (frame s1 ! 23) 2 \<and> bit (frame s1 ! 23) 3)"
    and "sbus_chancount n \<le> length (rc_channel_data s1)"
    and "sbus_chancount n \<le> length (rc_channel_data s2)"
  shows "rc_channels (sbus_decode n t1 s1) = rc_channels (sbus_decode n t2 s2)
       \<and> take (sbus_chancount n) (rc_channel_data (sbus_decode n t1 s1)) =
          take (sbus_chancount n) (rc_channel_data (sbus_decode n t2 s2))
       \<and> rc_channels (sbus_decode n t1 s1) = sbus_chancount n
       \<and> take (sbus_chancount n) (rc_channel_data (sbus_decode n t1 s1)) =
          sbus_decoded_channels n (frame s1)"
proof -
  have 2: "frame s2 ! 0 = 0x0f" "frame s2 ! 24 = 0x00"
    using assms(1,3,4) by simp_all
  show ?thesis
    using sbus_decode_good [OF assms(3,4,6), of t1] sbus_decode_good [OF 2 assms(7), of t2]
      assms(1,5)
    by (auto simp: length_sbus_decoded)
qed

theorem sbus_decode_deterministic_witness:
  "rc_channels (sbus_decode 12 3 (sbus_frame_state 12 (sbus_flag_frame 0x04))) =
   rc_channels (sbus_decode 12 900
     ((sbus_frame_state 12 (sbus_flag_frame 0x04))
        \<lparr>last_frame_time := 55, sbus_frame_drops := 4, rc_channels := 7,
         rc_channel_data := replicate 12 1500\<rparr>))
   \<and> take 12 (rc_channel_data (sbus_decode 12 3 (sbus_frame_state 12 (sbus_flag_frame 0x04)))) =
     take 12 (rc_channel_data (sbus_decode 12 900
       ((sbus_frame_state 12 (sbus_flag_frame 0x04))
          \<lparr>last_frame_time := 55, sbus_frame_drops := 4, rc_channels := 7,
           rc_channel_data := replicate 12 1500\<rparr>)))"
  using sbus_decode_deterministic [of "sbus_frame_state 12 (sbus_flag_frame 0x04)"
      "(sbus_frame_state 12 (sbus_flag_frame 0x04))
          \<lparr>last_frame_time := 55, sbus_frame_drops := 4, rc_channels := 7,
           rc_channel_data := replicate 12 1500\<rparr>" 12 3 900]
  by (simp add: sbus_frame_state_def sbus_zero_state_def nth_flag_frame sbus_chancount_def)

text \<open>
  C10. For every channel from 0 to 15 and every 25-byte buffer: the three entries of
  the channel's row of the matrix set pairwise disjoint bits of the accumulator,
  which together are the bits 0 to 10; each piece lies within the bits of its entry;
  so the raw value is below 2048 and the normalised value that the loop stores is
  between 998 and 2021.
\<close>

theorem sbus_matrix_row_bounds:
  assumes "channel < 16" and "length frm = SBUS_FRAME_SIZE"
  shows "sbus_pick_mask (sbus_decoder ! channel ! 0) AND
           sbus_pick_mask (sbus_decoder ! channel ! 1) = 0
       \<and> sbus_pick_mask (sbus_decoder ! channel ! 0) AND
           sbus_pick_mask (sbus_decoder ! channel ! 2) = 0
       \<and> sbus_pick_mask (sbus_decoder ! channel ! 1) AND
           sbus_pick_mask (sbus_decoder ! channel ! 2) = 0
       \<and> sbus_pick_mask (sbus_decoder ! channel ! 0) OR
           sbus_pick_mask (sbus_decoder ! channel ! 1) OR
           sbus_pick_mask (sbus_decoder ! channel ! 2) = 0x7ff
       \<and> sbus_piece frm (sbus_decoder ! channel ! 0) OR
           sbus_pick_mask (sbus_decoder ! channel ! 0) =
           sbus_pick_mask (sbus_decoder ! channel ! 0)
       \<and> sbus_piece frm (sbus_decoder ! channel ! 1) OR
           sbus_pick_mask (sbus_decoder ! channel ! 1) =
           sbus_pick_mask (sbus_decoder ! channel ! 1)
       \<and> sbus_piece frm (sbus_decoder ! channel ! 2) OR
           sbus_pick_mask (sbus_decoder ! channel ! 2) =
           sbus_pick_mask (sbus_decoder ! channel ! 2)
       \<and> unat (sbus_channel_value frm channel) < 2048
       \<and> 998 \<le> unat (sbus_channel_value frm channel div 2 + 998)
       \<and> unat (sbus_channel_value frm channel div 2 + 998) \<le> 2021"
proof -
  have "channel < 18" using assms(1) by simp
  then have le: "sbus_channel_value frm channel \<le> 0x7ff"
    by (rule sbus_channel_value_le)
  then have u: "unat (sbus_channel_value frm channel) \<le> 2047"
    by (simp add: word_le_nat_alt)
  show ?thesis
    using sbus_pick_masks_disjoint [OF assms(1)] u unat_normalise [OF le]
    by (simp add: sbus_piece_in_mask)
qed

theorem sbus_matrix_row_bounds_witness:
  "unat (sbus_channel_value (replicate 25 0xff) 2) < 2048
   \<and> unat (sbus_channel_value (replicate 25 0xff) 2 div 2 + 998) \<le> 2021
   \<and> sbus_pick_mask (sbus_decoder ! 2 ! 0) AND sbus_pick_mask (sbus_decoder ! 2 ! 1) = 0"
  using sbus_matrix_row_bounds [of 2 "replicate 25 0xff"]
  by simp

end
